theory Spec2Isabelle
  imports Complex_Main "HOL-Library.Word"
begin

unbundle bit_operations_syntax

section \<open>The maze data model (maze.js)\<close>

text \<open>
  JavaScript numbers that hold grid coordinates, directions, sizes and array indices are
  modelled as \<open>int\<close>; the passage mask, which the code only touches through the
  32-bit operators \<open>|=\<close>, \<open>&\<close> and \<open><<\<close>, is a \<open>32 word\<close>. Pixel positions,
  layout metrics and timestamps are modelled as exact \<open>real\<close> numbers (the rounding of
  IEEE doubles is outside the model); the one place where the code divides by a metric
  that can be zero is written out as a branch of its own. Reading an array outside its
  range yields \<open>undefined\<close> in JavaScript, and calling a method on \<open>undefined\<close>
  throws a \<open>TypeError\<close>: that is the \<open>Inl TypeError\<close> branch below. Memory and
  the engine's maximal array length are not modelled.
\<close>

text \<open>
  \<open>TypeError\<close> and \<open>RangeError\<close> are the exceptions of JavaScript. \<open>NonFinite\<close> is not
  an exception: it marks an arithmetic result that is \<open>NaN\<close> or infinite (a division by
  \<open>Math.max(cols, rows) = 0\<close>), which the real numbers of this model cannot hold.
\<close>

datatype error = TypeError | RangeError | NonFinite

record cell =
  cell_x :: int
  cell_y :: int
  passages :: "32 word"

record maze =
  cols :: int
  rows :: int
  grid :: "cell list"
  start :: "int \<times> int"
  goal :: "int \<times> int"

text \<open>\<^verbatim>\<open>new Cell(x, y)\<close>: all four walls closed.\<close>

definition new_Cell :: "int \<Rightarrow> int \<Rightarrow> cell" where
  "new_Cell x y = \<lparr>cell_x = x, cell_y = y, passages = 0\<rparr>"

text \<open>
  \<^verbatim>\<open>1 << dir\<close>: JavaScript masks the shift count to its low five bits.
\<close>

definition dir_bit :: "int \<Rightarrow> 32 word" where
  "dir_bit dir = push_bit (nat (dir mod 32)) 1"

text \<open>\<^verbatim>\<open>open(dir) { this.passages |= (1 << dir); }\<close>\<close>

definition Cell_open :: "cell \<Rightarrow> int \<Rightarrow> cell" where
  "Cell_open c dir = c\<lparr>passages := passages c OR dir_bit dir\<rparr>"

text \<open>\<^verbatim>\<open>isOpen(dir) { return (this.passages & (1 << dir)) !== 0; }\<close>\<close>

definition isOpen :: "cell \<Rightarrow> int \<Rightarrow> bool" where
  "isOpen c dir \<longleftrightarrow> passages c AND dir_bit dir \<noteq> 0"

text \<open>
  The constructor \<^verbatim>\<open>new Maze(cols, rows)\<close>. \<^verbatim>\<open>new Array(n)\<close> throws a
  \<open>RangeError\<close> for a negative length. Cell \<open>i\<close> gets the coordinates
  \<^verbatim>\<open>(i % cols, Math.floor(i / cols))\<close>; for \<open>i \<ge> 0\<close> the remainder of JavaScript
  is \<open>i mod \<bar>cols\<bar>\<close>.
\<close>

definition Maze :: "int \<Rightarrow> int \<Rightarrow> error + maze" where
  "Maze c r =
     (if c * r < 0 then Inl RangeError
      else Inr \<lparr>cols = c, rows = r,
                grid = map (\<lambda>i. new_Cell (i mod \<bar>c\<bar>) (i div c)) [0 .. c * r - 1],
                start = (0, 0),
                goal = (c - 1, r - 1)\<rparr>)"

text \<open>\<^verbatim>\<open>idx(x, y) { return y * this.cols + x; }\<close>\<close>

definition idx :: "maze \<Rightarrow> int \<Rightarrow> int \<Rightarrow> int" where
  "idx m x y = y * cols m + x"

text \<open>\<^verbatim>\<open>this.grid[i]\<close>: \<open>None\<close> stands for \<open>undefined\<close>.\<close>

definition grid_at :: "maze \<Rightarrow> int \<Rightarrow> cell option" where
  "grid_at m i = (if 0 \<le> i \<and> i < int (length (grid m)) then Some (grid m ! nat i) else None)"

text \<open>
  \<^verbatim>\<open>canMove(x, y, dir)\<close>. The cell is read first, with no check of \<open>x\<close> and \<open>y\<close>:
  \<^verbatim>\<open>c.isOpen(dir)\<close> throws when \<open>c\<close> is \<open>undefined\<close>.
\<close>

definition canMove :: "maze \<Rightarrow> int \<Rightarrow> int \<Rightarrow> int \<Rightarrow> error + bool" where
  "canMove m x y dir =
     (case grid_at m (idx m x y) of
        None \<Rightarrow> Inl TypeError
      | Some c \<Rightarrow>
          Inr (if \<not> isOpen c dir then False
               else if dir = 0 \<and> y \<le> 0 then False
               else if dir = 1 \<and> x \<ge> cols m - 1 then False
               else if dir = 2 \<and> y \<ge> rows m - 1 then False
               else if dir = 3 \<and> x \<le> 0 then False
               else True))"

text \<open>The cell that lies in direction \<open>dir\<close> of \<open>(x, y)\<close> (0 top, 1 right, 2 bottom, 3 left).\<close>

definition in_grid :: "maze \<Rightarrow> int \<times> int \<Rightarrow> bool" where
  "in_grid m p \<longleftrightarrow> 0 \<le> fst p \<and> fst p < cols m \<and> 0 \<le> snd p \<and> snd p < rows m"

definition toward :: "int \<times> int \<Rightarrow> int \<Rightarrow> int \<times> int" where
  "toward p dir =
     (if dir = 0 then (fst p, snd p - 1)
      else if dir = 1 then (fst p + 1, snd p)
      else if dir = 2 then (fst p, snd p + 1)
      else (fst p - 1, snd p))"

text \<open>A maze object as the constructor builds it and \<open>generate\<close> keeps it: one cell per index.\<close>

definition wf_maze :: "maze \<Rightarrow> bool" where
  "wf_maze m \<longleftrightarrow> 0 \<le> cols m \<and> 0 \<le> rows m \<and> int (length (grid m)) = cols m * rows m"



section \<open>Maze generation (maze.js)\<close>

text \<open>\<^verbatim>\<open>neighbors(x, y)\<close>: the objects \<open>{x, y, dir}\<close>, in the order top, right, bottom, left.\<close>

record neighbor =
  n_x :: int
  n_y :: int
  n_dir :: int

definition neighbors :: "maze \<Rightarrow> int \<Rightarrow> int \<Rightarrow> neighbor list" where
  "neighbors m x y =
     (if y > 0 then [\<lparr>n_x = x, n_y = y - 1, n_dir = 0\<rparr>] else []) @
     (if x < cols m - 1 then [\<lparr>n_x = x + 1, n_y = y, n_dir = 1\<rparr>] else []) @
     (if y < rows m - 1 then [\<lparr>n_x = x, n_y = y + 1, n_dir = 2\<rparr>] else []) @
     (if x > 0 then [\<lparr>n_x = x - 1, n_y = y, n_dir = 3\<rparr>] else [])"

text \<open>
  One call of the closure that \<^verbatim>\<open>mulberry32(a)\<close> returns: the new value of \<open>a\<close> and
  the 32-bit numerator \<open>u\<close> of the result \<open>u / 4294967296\<close>. Every operator applied to
  \<open>a\<close> and \<open>t\<close> (\<open>^\<close>, \<open>|\<close>, \<open>>>>\<close>, \<open>Math.imul\<close>) reads its operand modulo \<open>2^32\<close>,
  so the counter \<open>a\<close>, which the code keeps as an unwrapped number, is held modulo
  \<open>2^32\<close> (exact as long as the counter stays below \<open>2^53\<close>).
\<close>

definition mulberry32 :: "32 word \<Rightarrow> 32 word \<times> 32 word" where
  "mulberry32 a =
     (let a' = a + 0x6D2B79F5;
          t1 = (a' XOR drop_bit 15 a') * (a' OR 1);
          t2 = t1 XOR (t1 + (t1 XOR drop_bit 7 t1) * (t1 OR 61))
      in (a', t2 XOR drop_bit 14 t2))"

text \<open>
  \<^verbatim>\<open>Math.floor(rand() * len)\<close> for the numerator \<open>u\<close>: \<open>u / 2^32\<close> is a double with at
  most 32 significant bits and \<open>len \<le> 4\<close>, so the product is exact and its floor is the
  integer quotient.
\<close>

definition pick :: "32 word \<Rightarrow> nat \<Rightarrow> nat" where
  "pick u len = (unat u * len) div 2 ^ 32"

text \<open>\<^verbatim>\<open>this.grid[i].open(dir)\<close> for an index inside the array.\<close>

definition open_at :: "maze \<Rightarrow> int \<Rightarrow> int \<Rightarrow> maze" where
  "open_at m i dir = m\<lparr>grid := (grid m)[nat i := Cell_open (grid m ! nat i) dir]\<rparr>"

text \<open>
  The local state of \<open>generate\<close>: the maze object \<open>this\<close>, the counter of the random
  generator, the stack (its top is the last element) and the set of visited indices.
\<close>

record gen_state =
  this_maze :: maze
  rand_a :: "32 word"
  stack :: "(int \<times> int) list"
  visited :: "int set"

text \<open>
  One iteration of the \<open>while\<close> loop, for a stack that is not empty. Both cells are read
  before either is opened; \<open>c.open\<close> and \<open>nb.open\<close> throw on \<open>undefined\<close>.
\<close>

definition gen_step :: "gen_state \<Rightarrow> error + gen_state" where
  "gen_step s =
     (let m = this_maze s;
          current = last (stack s);
          unvisited = filter (\<lambda>n. idx m (n_x n) (n_y n) \<notin> visited s)
                        (neighbors m (fst current) (snd current))
      in if unvisited = [] then Inr (s\<lparr>stack := butlast (stack s)\<rparr>)
         else
           let r = mulberry32 (rand_a s);
               n = unvisited ! pick (snd r) (length unvisited);
               cIdx = idx m (fst current) (snd current);
               nIdx = idx m (n_x n) (n_y n)
           in case grid_at m cIdx of
                None \<Rightarrow> Inl TypeError
              | Some c \<Rightarrow>
                  (case grid_at m nIdx of
                     None \<Rightarrow> Inl TypeError
                   | Some nb \<Rightarrow>
                       Inr \<lparr>this_maze = open_at (open_at m cIdx (n_dir n)) nIdx ((n_dir n + 2) mod 4),
                            rand_a = fst r,
                            stack = stack s @ [(n_x n, n_y n)],
                            visited = insert nIdx (visited s)\<rparr>))"

text \<open>The indices of the grid array that are not visited yet.\<close>

definition unvisited_indices :: "gen_state \<Rightarrow> int set" where
  "unvisited_indices s = {0 ..< int (length (grid (this_maze s)))} - visited s"

lemma pick_less: "0 < len \<Longrightarrow> pick u len < len"
proof -
  assume "0 < len"
  have "unat u < 2 ^ 32" using unsigned_less [of u] by simp
  then have "unat u * len < 2 ^ 32 * len" using \<open>0 < len\<close> by simp
  then show ?thesis by (simp add: pick_def less_mult_imp_div_less mult.commute)
qed

lemma gen_step_decreases:
  assumes "gen_step s = Inr s'" "stack s \<noteq> []"
  shows "card (unvisited_indices s') < card (unvisited_indices s)
         \<or> card (unvisited_indices s') = card (unvisited_indices s)
           \<and> length (stack s') < length (stack s)"
proof -
  define m where "m = this_maze s"
  define unvisited where "unvisited = filter (\<lambda>n. idx m (n_x n) (n_y n) \<notin> visited s)
                        (neighbors m (fst (last (stack s))) (snd (last (stack s))))"
  show ?thesis
  proof (cases "unvisited = []")
    case True
    then have "s' = s\<lparr>stack := butlast (stack s)\<rparr>"
      using assms(1) by (simp add: gen_step_def Let_def m_def unvisited_def)
    then show ?thesis using assms(2) by (simp add: unvisited_indices_def)
  next
    case False
    define n where "n = unvisited ! pick (snd (mulberry32 (rand_a s))) (length unvisited)"
    define nIdx where "nIdx = idx m (n_x n) (n_y n)"
    have "n \<in> set unvisited"
      unfolding n_def using False by (intro nth_mem pick_less) simp
    then have nv: "nIdx \<notin> visited s" by (simp add: unvisited_def nIdx_def)
    from assms(1) False have r: "0 \<le> nIdx \<and> nIdx < int (length (grid m))"
      and v: "visited s' = insert nIdx (visited s)"
      and l: "length (grid (this_maze s')) = length (grid m)"
      by (auto simp: gen_step_def Let_def m_def [symmetric] unvisited_def [symmetric]
          n_def [symmetric] nIdx_def [symmetric] grid_at_def open_at_def
          split: option.splits if_splits)
    have "unvisited_indices s' = unvisited_indices s - {nIdx}"
      using v l by (auto simp: unvisited_indices_def m_def)
    moreover have "nIdx \<in> unvisited_indices s"
      using r nv by (simp add: unvisited_indices_def m_def)
    moreover have "finite (unvisited_indices s)" by (simp add: unvisited_indices_def)
    ultimately have "card (unvisited_indices s') < card (unvisited_indices s)"
      by (simp only: card_Diff1_less)
    then show ?thesis by simp
  qed
qed

text \<open>
  The \<open>while (stack.length)\<close> loop. It ends because every iteration either visits a new
  index of the grid array or pops the stack.
\<close>

function gen_loop :: "gen_state \<Rightarrow> error + maze" where
  "gen_loop s =
     (if stack s = [] then Inr (this_maze s)
      else case gen_step s of Inl e \<Rightarrow> Inl e | Inr s' \<Rightarrow> gen_loop s')"
  by pat_completeness auto
termination
proof (relation "measures [\<lambda>s. card (unvisited_indices s), \<lambda>s. length (stack s)]")
  show "wf (measures [\<lambda>s. card (unvisited_indices s), \<lambda>s. length (stack s)])" by simp
next
  fix s s'
  assume "stack s \<noteq> []" "gen_step s = Inr s'"
  from gen_step_decreases [OF this(2,1)]
  show "(s', s) \<in> measures [\<lambda>s. card (unvisited_indices s), \<lambda>s. length (stack s)]"
    by auto
qed

declare gen_loop.simps [simp del]

text \<open>The state in which the loop of \<open>generate\<close> starts.\<close>

definition gen_init :: "maze \<Rightarrow> int \<Rightarrow> gen_state" where
  "gen_init m seed = \<lparr>this_maze = m, rand_a = word_of_int seed, stack = [(0, 0)], visited = {idx m 0 0}\<rparr>"

text \<open>
  \<^verbatim>\<open>generate(seed = Date.now())\<close>: \<open>now\<close> is what \<^verbatim>\<open>Date.now()\<close> returns when
  the argument is missing. \<^verbatim>\<open>seed >>> 0\<close> is the seed modulo \<open>2^32\<close>; the loop starts
  with cell \<open>(0, 0)\<close> on the stack and visited; the goal is set at the end.
\<close>

definition generate :: "maze \<Rightarrow> int option \<Rightarrow> int \<Rightarrow> error + maze" where
  "generate m seed now =
     (case gen_loop (gen_init m (case seed of None \<Rightarrow> now | Some sd \<Rightarrow> sd)) of
        Inl e \<Rightarrow> Inl e
      | Inr m' \<Rightarrow> Inr (m'\<lparr>goal := (cols m' - 1, rows m' - 1)\<rparr>))"

text \<open>\<^verbatim>\<open>maze = new Maze(cols, rows); maze.generate(seed)\<close>, as \<open>startGame\<close> does it.\<close>

definition new_maze :: "int \<Rightarrow> int \<Rightarrow> int option \<Rightarrow> int \<Rightarrow> error + maze" where
  "new_maze c r seed now = (case Maze c r of Inl e \<Rightarrow> Inl e | Inr m \<Rightarrow> generate m seed now)"

subsection \<open>The passage graph and the invariant of the loop\<close>

text \<open>The four directions: 0 top, 1 right, 2 bottom, 3 left.\<close>

definition dirs :: "int set" where
  "dirs = {0, 1, 2, 3}"

text \<open>The passage bit \<open>d\<close> of the cell at \<open>p\<close> (for a cell of the grid).\<close>

definition passage :: "maze \<Rightarrow> int \<times> int \<Rightarrow> int \<Rightarrow> bool" where
  "passage m p d \<longleftrightarrow> isOpen (grid m ! nat (idx m (fst p) (snd p))) d"

text \<open>The open passage bits of the cells of the grid.\<close>

definition opened :: "maze \<Rightarrow> ((int \<times> int) \<times> int) set" where
  "opened m = {(p, d). in_grid m p \<and> d \<in> dirs \<and> passage m p d}"

text \<open>The cells of the grid whose index is in \<open>visited\<close>.\<close>

definition visited_cells :: "gen_state \<Rightarrow> (int \<times> int) set" where
  "visited_cells s = {p. in_grid (this_maze s) p \<and> idx (this_maze s) (fst p) (snd p) \<in> visited s}"

text \<open>The basic invariant of the loop: the maze object is well formed, cell \<open>(0, 0)\<close> and the
  cells on the stack are visited, and every open bit joins two visited cells.\<close>

definition gen_base :: "gen_state \<Rightarrow> bool" where
  "gen_base s \<longleftrightarrow>
     wf_maze (this_maze s) \<and> (0, 0) \<in> visited_cells s \<and> set (stack s) \<subseteq> visited_cells s
     \<and> (\<forall>(p, d) \<in> opened (this_maze s). p \<in> visited_cells s \<and> toward p d \<in> visited_cells s)"

text \<open>The states the loop passes through, one iteration after the other.\<close>

inductive gen_reach :: "gen_state \<Rightarrow> gen_state \<Rightarrow> bool" for s0 where
  init: "gen_reach s0 s0"
| step: "gen_reach s0 s \<Longrightarrow> stack s \<noteq> [] \<Longrightarrow> gen_step s = Inr s' \<Longrightarrow> gen_reach s0 s'"

text \<open>Every open bit has its opposite bit open in the cell it leads to.\<close>

definition mutual_bits :: "maze \<Rightarrow> bool" where
  "mutual_bits m \<longleftrightarrow> (\<forall>(p, d) \<in> opened m. (toward p d, (d + 2) mod 4) \<in> opened m)"

text \<open>A visited cell that has left the stack has all its neighbours in the grid visited.\<close>

definition closed_cells :: "gen_state \<Rightarrow> bool" where
  "closed_cells s \<longleftrightarrow>
     (\<forall>p \<in> visited_cells s. p \<notin> set (stack s) \<longrightarrow>
        (\<forall>d \<in> dirs. in_grid (this_maze s) (toward p d) \<longrightarrow> toward p d \<in> visited_cells s))"

text \<open>An open passage from \<open>p\<close> to \<open>q\<close>: \<open>q\<close> is the neighbour of the grid cell \<open>p\<close> in a
  direction in which \<open>canMove\<close> allows the move.\<close>

definition link :: "maze \<Rightarrow> ((int \<times> int) \<times> (int \<times> int)) set" where
  "link m = {(p, q). in_grid m p
               \<and> (\<exists>d \<in> dirs. q = toward p d \<and> canMove m (fst p) (snd p) d = Inr True)}"

text \<open>A cycle of a graph given by its edges: at least three distinct vertices, each joined to
  the next and the last to the first.\<close>

definition cycle :: "('a \<times> 'a) set \<Rightarrow> 'a list \<Rightarrow> bool" where
  "cycle E ps \<longleftrightarrow>
     3 \<le> length ps \<and> distinct ps
     \<and> (\<forall>i < length ps. (ps ! i, ps ! ((i + 1) mod length ps)) \<in> E)"

text \<open>The passage pairs as a set: a pair of mutually open bits is named by its left or upper
  cell and the direction 1 (right) or 2 (bottom).\<close>

definition mutual_pairs :: "maze \<Rightarrow> ((int \<times> int) \<times> int) set" where
  "mutual_pairs m =
     {(p, d). d \<in> {1, 2} \<and> (p, d) \<in> opened m \<and> (toward p d, (d + 2) mod 4) \<in> opened m}"

text \<open>There is one passage pair less than there are visited cells.\<close>

definition count_inv :: "gen_state \<Rightarrow> bool" where
  "count_inv s \<longleftrightarrow> card (mutual_pairs (this_maze s)) + 1 = card (visited_cells s)"

text \<open>Every visited cell is reachable from \<open>(0, 0)\<close> through open passages.\<close>

definition reach_inv :: "gen_state \<Rightarrow> bool" where
  "reach_inv s \<longleftrightarrow> (\<forall>v \<in> visited_cells s. ((0, 0), v) \<in> (link (this_maze s))\<^sup>*)"

text \<open>The invariant of the loop.\<close>

definition gen_inv :: "gen_state \<Rightarrow> bool" where
  "gen_inv s \<longleftrightarrow>
     gen_base s \<and> mutual_bits (this_maze s) \<and> closed_cells s \<and> reach_inv s
     \<and> (\<nexists>ps. cycle (link (this_maze s)) ps) \<and> count_inv s"


subsection \<open>What a perfect maze is\<close>

text \<open>The cells of the grid, as a list.\<close>

definition all_cells :: "maze \<Rightarrow> (int \<times> int) list" where
  "all_cells m = List.product [0 .. cols m - 1] [0 .. rows m - 1]"

text \<open>
  A passage pair: the cell \<open>p\<close> and its neighbour in direction \<open>d\<close> are both in the grid and
  each has the bit toward the other open.
\<close>

definition mutually_open :: "maze \<Rightarrow> int \<times> int \<Rightarrow> int \<Rightarrow> bool" where
  "mutually_open m p d \<longleftrightarrow>
     in_grid m p \<and> in_grid m (toward p d) \<and> passage m p d \<and> passage m (toward p d) ((d + 2) mod 4)"

text \<open>
  The passage pairs of a maze, each listed once: from its left cell in direction 1 (right), or
  from its upper cell in direction 2 (bottom).
\<close>

definition passage_pairs :: "maze \<Rightarrow> ((int \<times> int) \<times> int) list" where
  "passage_pairs m = filter (\<lambda>(p, d). mutually_open m p d) (List.product (all_cells m) [1, 2])"

text \<open>
  The mutual passage invariant: an open bit toward a neighbour in the grid has the opposite
  bit open in that neighbour.
\<close>

definition mutual :: "maze \<Rightarrow> bool" where
  "mutual m \<longleftrightarrow>
     (\<forall>p \<in> set (all_cells m). \<forall>d \<in> dirs.
        passage m p d \<and> in_grid m (toward p d) \<longrightarrow> passage m (toward p d) ((d + 2) mod 4))"


section \<open>Layout metrics and the cell of a point (maze.js, main.js)\<close>

record metrics =
  cellSize :: real
  originX :: real
  originY :: real

text \<open>
  The metrics \<^verbatim>\<open>drawMaze(ctx, maze, {w, h})\<close> returns; the drawing itself has no
  effect on the program's state. \<open>padding\<close> is its default, 16.
\<close>

definition drawMaze :: "maze \<Rightarrow> real \<Rightarrow> real \<Rightarrow> error + metrics" where
  "drawMaze m w h =
     (if max (cols m) (rows m) = 0 then Inl NonFinite
      else
        let cs = of_int \<lfloor>min w h - 16 * 2\<rfloor> / of_int (max (cols m) (rows m))
        in Inr \<lparr>cellSize = cs,
                originX = (w - cs * of_int (cols m)) / 2,
                originY = (h - cs * of_int (rows m)) / 2\<rparr>)"

text \<open>\<^verbatim>\<open>cellCenter(cx, cy)\<close>\<close>

definition cellCenter :: "metrics \<Rightarrow> int \<Rightarrow> int \<Rightarrow> real \<times> real" where
  "cellCenter mt cx cy =
     (originX mt + (of_int cx + 0.5) * cellSize mt, originY mt + (of_int cy + 0.5) * cellSize mt)"

text \<open>
  What \<^verbatim>\<open>cellFromPoint(px, py)\<close> returns: \<open>null\<close>, an object \<open>{x, y}\<close> of two
  integers, or the object \<open>{x: NaN, y: NaN}\<close>. The last arises when \<open>cellSize\<close> is 0:
  then \<^verbatim>\<open>(px - originX) / cellSize\<close> is \<open>NaN\<close> for \<open>px = originX\<close> and infinite
  otherwise; an infinite coordinate fails one of the four comparisons (\<open>null\<close>), while
  \<open>NaN\<close> passes all of them.
\<close>

datatype cellref = Null | CellAt int int | NaNCell

definition cellFromPoint :: "maze \<Rightarrow> metrics \<Rightarrow> real \<Rightarrow> real \<Rightarrow> cellref" where
  "cellFromPoint m mt px py =
     (if cellSize mt = 0 then (if px = originX mt \<and> py = originY mt then NaNCell else Null)
      else
        let x = \<lfloor>(px - originX mt) / cellSize mt\<rfloor>;
            y = \<lfloor>(py - originY mt) / cellSize mt\<rfloor>
        in if x < 0 \<or> y < 0 \<or> x \<ge> cols m \<or> y \<ge> rows m then Null else CellAt x y)"

text \<open>
  \<^verbatim>\<open>canTraverse(x1, y1, x2, y2)\<close>. Every comparison with \<open>NaN\<close> is false and
  \<^verbatim>\<open>Math.abs(NaN) + Math.abs(NaN) !== 1\<close> is true, so a \<open>NaN\<close> cell ends in the
  \<^verbatim>\<open>return false\<close> of the jump test.
\<close>

definition canTraverse :: "maze \<Rightarrow> metrics \<Rightarrow> real \<Rightarrow> real \<Rightarrow> real \<Rightarrow> real \<Rightarrow> error + bool" where
  "canTraverse m mt x1 y1 x2 y2 =
     (case (cellFromPoint m mt x1 y1, cellFromPoint m mt x2 y2) of
        (CellAt ax ay, CellAt bx by) \<Rightarrow>
          if ax = bx \<and> ay = by then Inr True
          else
            let dx = bx - ax; dy = by - ay
            in if \<bar>dx\<bar> + \<bar>dy\<bar> \<noteq> 1 then Inr False
               else canMove m ax ay
                      (if dx = 1 then 1 else if dx = - 1 then 3 else if dy = 1 then 2 else 0)
      | _ \<Rightarrow> Inr False)"


section \<open>The game state and the feedback shared by both versions (main.js, part_000)\<close>

text \<open>
  The module-level variables that both versions of the game script declare and that the
  movement code reads or writes. The variables \<open>maze\<close> and \<open>metrics\<close> are undefined
  until the first \<open>startGame\<close>: \<open>maze_set\<close> says that \<open>maze\<close> holds a maze, and before that
  \<open>the_maze\<close> and \<open>the_metrics\<close> are not read. The value \<open>None\<close> of \<open>player_cell\<close> stands
  for \<open>cellX = cellY = NaN\<close>. \<open>jumps\<close> holds the running jump animations that \<open>onGoal\<close>
  starts: for each its frame counter \<open>t\<close> and its \<open>startY\<close>. The fields \<open>hurt_log\<close>
  and \<open>goal_count\<close> are not variables of the program: they record the calls of \<open>hurt()\<close>
  (with the time read by \<open>maybeHurt\<close>) and of \<open>onGoal()\<close>. The audio, vibration, toast
  and storage calls are external and leave this state alone.
\<close>

record game =
  maze_set :: bool
  the_maze :: maze
  canvasW :: real
  canvasH :: real
  the_metrics :: metrics
  player_cell :: "(int \<times> int) option"
  player_x :: real
  player_y :: real
  player_radius :: real
  hurtFlash :: int
  dragging :: bool
  lastTouch :: "(real \<times> real) option"
  lastHurtAt :: real
  age :: "int option"
  coins :: int
  jumps :: "(nat \<times> real) list"
  hurt_log :: "real list"
  goal_count :: nat

text \<open>main.js adds the flags of its frame loop.\<close>

record loop_game = game +
  running :: bool
  won :: bool

text \<open>
  part_000 adds the target of the current hop, the queued direction, and (in \<open>anim\<close>) the
  animation callback \<open>step\<close> that \<open>animate()\<close> has requested, with the speed it captured;
  \<open>rafId\<close> names that one request, which \<open>animate()\<close> cancels before it makes a new one.
\<close>

record hop_game = game +
  targetX :: real
  targetY :: real
  moving :: bool
  queuedDir :: "int option"
  anim :: "real option"

text \<open>
  \<^verbatim>\<open>drawAll()\<close>: the metrics are taken anew from the canvas, and a pending hurt flash
  is counted down.
\<close>

definition drawAll :: "'a game_scheme \<Rightarrow> error + 'a game_scheme" where
  "drawAll s =
     (case drawMaze (the_maze s) (canvasW s) (canvasH s) of
        Inl e \<Rightarrow> Inl e
      | Inr mt \<Rightarrow>
          Inr (s\<lparr>the_metrics := mt,
                 hurtFlash := (if hurtFlash s > 0 then hurtFlash s - 1 else hurtFlash s)\<rparr>))"

text \<open>\<^verbatim>\<open>hurt()\<close>, called at time \<open>now\<close>.\<close>

definition hurt :: "real \<Rightarrow> 'a game_scheme \<Rightarrow> error + 'a game_scheme" where
  "hurt now s = drawAll (s\<lparr>hurtFlash := 8, hurt_log := hurt_log s @ [now]\<rparr>)"

text \<open>\<^verbatim>\<open>maybeHurt()\<close>; \<open>now\<close> is what \<^verbatim>\<open>performance.now()\<close> returns.\<close>

definition maybeHurt :: "real \<Rightarrow> 'a game_scheme \<Rightarrow> error + 'a game_scheme" where
  "maybeHurt now s =
     (if now - lastHurtAt s > 220 then hurt now (s\<lparr>lastHurtAt := now\<rparr>) else Inr s)"

text \<open>
  \<^verbatim>\<open>attemptMove(cx, cy, dx, dy)\<close> of main.js: the full step, the slide on X, the slide
  on Y.
\<close>

definition attemptMove ::
  "'a game_scheme \<Rightarrow> real \<Rightarrow> real \<Rightarrow> real \<Rightarrow> real \<Rightarrow> real
     \<Rightarrow> error + ((real \<times> real) \<times> 'a game_scheme)" where
  "attemptMove s now cx cy dx dy =
     (case canTraverse (the_maze s) (the_metrics s) cx cy (cx + dx) (cy + dy) of
        Inl e \<Rightarrow> Inl e
      | Inr True \<Rightarrow> Inr ((cx + dx, cy + dy), s)
      | Inr False \<Rightarrow>
     (case canTraverse (the_maze s) (the_metrics s) cx cy (cx + dx) cy of
        Inl e \<Rightarrow> Inl e
      | Inr True \<Rightarrow> Inr ((cx + dx, cy), s)
      | Inr False \<Rightarrow>
     (case canTraverse (the_maze s) (the_metrics s) cx cy cx (cy + dy) of
        Inl e \<Rightarrow> Inl e
      | Inr True \<Rightarrow> Inr ((cx, cy + dy), s)
      | Inr False \<Rightarrow>
     (case maybeHurt now s of
        Inl e \<Rightarrow> Inl e
      | Inr s' \<Rightarrow> Inr ((cx, cy), s')))))"

text \<open>A run of \<open>maybeHurt\<close> calls, one per blocked attempt, at the given clock readings.\<close>

fun maybeHurt_run :: "real list \<Rightarrow> 'a game_scheme \<Rightarrow> error + 'a game_scheme" where
  "maybeHurt_run [] s = Inr s"
| "maybeHurt_run (t # ts) s =
     (case maybeHurt t s of Inl e \<Rightarrow> Inl e | Inr s' \<Rightarrow> maybeHurt_run ts s')"


text \<open>The metrics are those of the last \<open>drawMaze\<close> on the present canvas.\<close>

definition synced :: "'a game_scheme \<Rightarrow> bool" where
  "synced s \<longleftrightarrow> drawMaze (the_maze s) (canvasW s) (canvasH s) = Inr (the_metrics s)"

text \<open>
  The hurt events so far are more than 220 ms apart, and none is later than
  \<open>lastHurtAt\<close>.
\<close>

definition hurt_spaced :: "'a game_scheme \<Rightarrow> bool" where
  "hurt_spaced s \<longleftrightarrow>
     sorted_wrt (\<lambda>t1 t2. t2 - t1 > 220) (hurt_log s) \<and> (\<forall>t \<in> set (hurt_log s). t \<le> lastHurtAt s)"

section \<open>Pointer input, level start and goal event (main.js, part_000)\<close>

text \<open>\<^verbatim>\<open>difficultyForAge(age)\<close>; \<open>None\<close> is the initial \<open>null\<close> of \<open>store.age\<close>.\<close>

definition difficultyForAge :: "int option \<Rightarrow> int" where
  "difficultyForAge a =
     (if a = Some 3 then 5 else if a = Some 4 then 7 else if a = Some 5 then 9
      else if a = Some 6 then 12 else 7)"

text \<open>\<^verbatim>\<open>Math.hypot(x, y)\<close>\<close>

definition hypot :: "real \<Rightarrow> real \<Rightarrow> real" where
  "hypot x y = sqrt (x * x + y * y)"

text \<open>\<^verbatim>\<open>withinPlayer(x, y)\<close>\<close>

definition withinPlayer :: "'a game_scheme \<Rightarrow> real \<Rightarrow> real \<Rightarrow> bool" where
  "withinPlayer s x y =
     (let dx = x - player_x s; dy = y - player_y s
      in dx * dx + dy * dy \<le> player_radius s * player_radius s * 1.6)"

text \<open>
  \<^verbatim>\<open>onStart(evt)\<close> and \<^verbatim>\<open>onEnd()\<close>; \<open>(x, y)\<close> is the canvas point of the event.
\<close>

definition onStart :: "real \<Rightarrow> real \<Rightarrow> 'a game_scheme \<Rightarrow> 'a game_scheme" where
  "onStart x y s = (if withinPlayer s x y then s\<lparr>dragging := True, lastTouch := Some (x, y)\<rparr> else s)"

definition onEnd :: "'a game_scheme \<Rightarrow> 'a game_scheme" where
  "onEnd s = s\<lparr>dragging := False, lastTouch := None\<rparr>"

text \<open>
  \<^verbatim>\<open>onGoal()\<close>: five coins, the jump animation (\<open>t = 0\<close>, \<open>startY = player.y\<close>) and, not
  modelled as state, the timer that calls \<open>startGame\<close> after 900 ms.
\<close>

definition onGoal :: "'a game_scheme \<Rightarrow> 'a game_scheme" where
  "onGoal s = s\<lparr>coins := coins s + 5, jumps := jumps s @ [(0, player_y s)],
                 goal_count := goal_count s + 1\<rparr>"

text \<open>
  One frame of the \<open>i\<close>-th running jump animation (the callback \<open>step\<close> inside \<open>jump\<close>,
  with \<open>T = 22\<close>); it requests the next frame while \<open>t < T\<close>.
\<close>

definition jump_frame :: "nat \<Rightarrow> 'a game_scheme \<Rightarrow> error + 'a game_scheme" where
  "jump_frame i s =
     (if i < length (jumps s) then
        let t = fst (jumps s ! i) + 1;
            startY = snd (jumps s ! i);
            k = real t / 22
        in case drawAll (s\<lparr>player_y := startY - sin (k * pi) * (player_radius s * 0.8)\<rparr>) of
             Inl e \<Rightarrow> Inl e
           | Inr s1 \<Rightarrow>
               Inr (s1\<lparr>jumps := (if t < 22 then (jumps s1)[i := (t, startY)]
                                  else take i (jumps s1) @ drop (Suc i) (jumps s1))\<rparr>)
      else Inr s)"

text \<open>
  \<^verbatim>\<open>fitCanvas()\<close>; \<open>w\<close> and \<open>h\<close> are the new width and height of the canvas. The
  maze is drawn \<^verbatim>\<open>if (maze)\<close>.
\<close>

definition fitCanvas :: "real \<Rightarrow> real \<Rightarrow> 'a game_scheme \<Rightarrow> error + 'a game_scheme" where
  "fitCanvas w h s =
     (if maze_set s then drawAll (s\<lparr>canvasW := w, canvasH := h\<rparr>)
      else Inr (s\<lparr>canvasW := w, canvasH := h\<rparr>))"

text \<open>
  What happens to the game: pointer events (with their canvas point), an animation frame
  of the movement code, a frame of a jump animation, a resize of the window, and a call of
  \<open>startGame\<close>. \<open>now\<close> is the reading of the clock (\<open>performance.now()\<close>, or
  \<open>Date.now()\<close> in \<open>startGame\<close>) during the event.
\<close>

datatype event =
  PointerStart real real
| PointerMove real real real
| PointerEnd
| Frame real
| JumpFrame nat
| Resize real real
| StartGame real real int

fun is_StartGame :: "event \<Rightarrow> bool" where
  "is_StartGame (StartGame w h now) = True"
| "is_StartGame _ = False"

section \<open>The frame loop of main.js\<close>

text \<open>The block \<^verbatim>\<open>if (dragging && lastTouch) { ... }\<close> of \<open>tick\<close>.\<close>

definition drag_move :: "real \<Rightarrow> real \<Rightarrow> loop_game \<Rightarrow> error + loop_game" where
  "drag_move speed now s =
     (case (dragging s, lastTouch s) of
        (True, Some (tx, ty)) \<Rightarrow>
          (let vx = tx - player_x s;
               vy = ty - player_y s;
               dist = hypot vx vy
           in if dist > 0.5 then
                (let step = min speed dist;
                     dx = (vx / dist) * step;
                     dy = (vy / dist) * step
                 in case attemptMove s now (player_x s) (player_y s) dx dy of
                      Inl e \<Rightarrow> Inl e
                    | Inr (res, s1) \<Rightarrow> Inr (s1\<lparr>player_x := fst res, player_y := snd res\<rparr>))
              else Inr s)
      | _ \<Rightarrow> Inr s)"

text \<open>
  \<^verbatim>\<open>const c = cellFromPoint(player.x, player.y); if (c) { ... }\<close>: an object of two
  \<open>NaN\<close> is truthy.
\<close>

definition update_cell :: "loop_game \<Rightarrow> loop_game" where
  "update_cell s =
     (case cellFromPoint (the_maze s) (the_metrics s) (player_x s) (player_y s) of
        Null \<Rightarrow> s
      | CellAt a b \<Rightarrow> s\<lparr>player_cell := Some (a, b)\<rparr>
      | NaNCell \<Rightarrow> s\<lparr>player_cell := None\<rparr>)"

text \<open>The callback \<open>tick\<close> of \<open>startLoop\<close>, which requests itself again while \<open>running\<close>.\<close>

definition tick :: "real \<Rightarrow> loop_game \<Rightarrow> error + loop_game" where
  "tick now s =
     (if \<not> running s then Inr s
      else
        case drag_move (max 3 (of_int \<lfloor>cellSize (the_metrics s) * 0.32\<rfloor>)) now s of
          Inl e \<Rightarrow> Inl e
        | Inr s1 \<Rightarrow>
            (case drawAll (update_cell s1) of
               Inl e \<Rightarrow> Inl e
             | Inr s2 \<Rightarrow>
                 Inr (if \<not> won s2 \<and> player_cell s2 = Some (goal (the_maze s2))
                      then onGoal (s2\<lparr>won := True\<rparr>) else s2)))"

text \<open>\<^verbatim>\<open>onMove(evt)\<close> of main.js.\<close>

definition onMove :: "real \<Rightarrow> real \<Rightarrow> loop_game \<Rightarrow> loop_game" where
  "onMove x y s = (if \<not> dragging s then s else s\<lparr>lastTouch := Some (x, y)\<rparr>)"

text \<open>
  \<^verbatim>\<open>startGame()\<close> of main.js, with the canvas size that \<open>fitCanvas\<close> finds and the
  reading of \<open>Date.now()\<close>; \<open>startLoop\<close> sets \<open>running\<close>.
\<close>

definition startGame :: "real \<Rightarrow> real \<Rightarrow> int \<Rightarrow> loop_game \<Rightarrow> error + loop_game" where
  "startGame w h now s =
     (case fitCanvas w h s of
        Inl e \<Rightarrow> Inl e
      | Inr s1 \<Rightarrow>
     (case new_maze (difficultyForAge (age s1)) (difficultyForAge (age s1)) (Some now) now of
        Inl e \<Rightarrow> Inl e
      | Inr m0 \<Rightarrow>
     (let m = m0\<lparr>start := (0, 0), goal := (cols m0 - 1, rows m0 - 1)\<rparr>
      in case drawMaze m (canvasW s1) (canvasH s1) of
        Inl e \<Rightarrow> Inl e
      | Inr mt \<Rightarrow>
     (let p = cellCenter mt (fst (start m)) (snd (start m))
      in case drawAll (s1\<lparr>maze_set := True, the_maze := m, the_metrics := mt,
                          player_cell := Some (start m),
                          player_x := fst p, player_y := snd p,
                          player_radius := max 10 (of_int \<lfloor>cellSize mt * 0.24\<rfloor>),
                          won := False\<rparr>) of
        Inl e \<Rightarrow> Inl e
      | Inr s2 \<Rightarrow> Inr (s2\<lparr>running := True\<rparr>)))))"

fun loop_event :: "event \<Rightarrow> loop_game \<Rightarrow> error + loop_game" where
  "loop_event (PointerStart x y) s = Inr (onStart x y s)"
| "loop_event (PointerMove x y now) s = Inr (onMove x y s)"
| "loop_event PointerEnd s = Inr (onEnd s)"
| "loop_event (Frame now) s = tick now s"
| "loop_event (JumpFrame i) s = jump_frame i s"
| "loop_event (Resize w h) s = fitCanvas w h s"
| "loop_event (StartGame w h now) s = startGame w h now s"

fun loop_run :: "event list \<Rightarrow> loop_game \<Rightarrow> error + loop_game" where
  "loop_run [] s = Inr s"
| "loop_run (e # es) s = (case loop_event e s of Inl x \<Rightarrow> Inl x | Inr s' \<Rightarrow> loop_run es s')"

section \<open>The hop animation of part_000\<close>

text \<open>The direction of a drag: the dominant axis, vertical on a tie.\<close>

definition drag_dir :: "real \<Rightarrow> real \<Rightarrow> int" where
  "drag_dir dx dy = (if \<bar>dx\<bar> > \<bar>dy\<bar> then (if dx > 0 then 1 else 3) else (if dy > 0 then 2 else 0))"

text \<open>\<^verbatim>\<open>maze.canMove(player.cellX, player.cellY, dir)\<close>; \<open>grid[NaN]\<close> is \<open>undefined\<close>.\<close>

definition canMove_player :: "int \<Rightarrow> 'a game_scheme \<Rightarrow> error + bool" where
  "canMove_player dir s =
     (case player_cell s of
        None \<Rightarrow> Inl TypeError
      | Some c \<Rightarrow> canMove (the_maze s) (fst c) (snd c) dir)"

text \<open>
  The five lines that start a hop, in \<open>tryStepToward\<close> and again in \<open>step\<close>: the player's
  cell becomes the neighbour at once, and its centre the target.
\<close>

definition begin_hop :: "int \<Rightarrow> hop_game \<Rightarrow> hop_game" where
  "begin_hop dir s =
     (case player_cell s of
        None \<Rightarrow> s
      | Some c \<Rightarrow>
          let nx = fst c + (if dir = 1 then 1 else if dir = 3 then - 1 else 0);
              ny = snd c + (if dir = 2 then 1 else if dir = 0 then - 1 else 0);
              t = cellCenter (the_metrics s) nx ny
          in s\<lparr>player_cell := Some (nx, ny), targetX := fst t, targetY := snd t, moving := True\<rparr>)"

text \<open>
  \<^verbatim>\<open>animate()\<close>: the pending request is cancelled and \<open>step\<close> is requested, with the
  speed of this moment.
\<close>

definition animate :: "hop_game \<Rightarrow> hop_game" where
  "animate s = s\<lparr>anim := Some (max 4 (of_int \<lfloor>cellSize (the_metrics s) * 0.24\<rfloor>))\<rparr>"

text \<open>\<^verbatim>\<open>tryStepToward(x, y)\<close>\<close>

definition tryStepToward :: "real \<Rightarrow> real \<Rightarrow> real \<Rightarrow> hop_game \<Rightarrow> error + hop_game" where
  "tryStepToward x y now s =
     (let dir = drag_dir (x - player_x s) (y - player_y s)
      in case canMove_player dir s of
           Inl e \<Rightarrow> Inl e
         | Inr ok \<Rightarrow>
             if moving s then (if ok then Inr (s\<lparr>queuedDir := Some dir\<rparr>) else maybeHurt now s)
             else if \<not> ok then maybeHurt now s
             else Inr (animate (begin_hop dir s)))"

text \<open>
  The callback \<open>step\<close> of \<open>animate\<close>, with the speed it captured. When the hop is complete
  the goal is tested, with no flag that remembers an earlier \<open>onGoal\<close>.
\<close>

definition anim_step :: "real \<Rightarrow> hop_game \<Rightarrow> error + hop_game" where
  "anim_step speed s =
     (let vx = targetX s - player_x s;
          vy = targetY s - player_y s;
          dist = hypot vx vy
      in if dist \<le> speed then
           (case drawAll (s\<lparr>player_x := targetX s, player_y := targetY s, moving := False,
                              anim := None\<rparr>) of
              Inl e \<Rightarrow> Inl e
            | Inr s1 \<Rightarrow>
                let s2 = (if player_cell s1 = Some (goal (the_maze s1)) then onGoal s1 else s1)
                in if \<not> moving s2 \<and> (queuedDir s2 \<noteq> None \<or> (dragging s2 \<and> lastTouch s2 \<noteq> None))
                   then
                     (let dir = (case queuedDir s2 of
                                   Some d \<Rightarrow> Some d
                                 | None \<Rightarrow>
                                     (case (dragging s2, lastTouch s2) of
                                        (True, Some (tx, ty)) \<Rightarrow>
                                          Some (drag_dir (tx - player_x s2) (ty - player_y s2))
                                      | _ \<Rightarrow> None));
                          s3 = s2\<lparr>queuedDir := None\<rparr>
                      in case dir of
                           None \<Rightarrow> Inr s3
                         | Some d \<Rightarrow>
                             (case canMove_player d s3 of
                                Inl e \<Rightarrow> Inl e
                              | Inr True \<Rightarrow> Inr ((begin_hop d s3)\<lparr>anim := Some speed\<rparr>)
                              | Inr False \<Rightarrow> Inr s3))
                   else Inr s2)
         else
           (case drawAll (s\<lparr>player_x := player_x s + (vx / dist) * speed,
                              player_y := player_y s + (vy / dist) * speed\<rparr>) of
              Inl e \<Rightarrow> Inl e
            | Inr s1 \<Rightarrow> Inr (s1\<lparr>anim := Some speed\<rparr>)))"

text \<open>\<^verbatim>\<open>onMove(evt)\<close> of part_000.\<close>

definition onMove_hop :: "real \<Rightarrow> real \<Rightarrow> real \<Rightarrow> hop_game \<Rightarrow> error + hop_game" where
  "onMove_hop x y now s =
     (if \<not> dragging s then Inr s else tryStepToward x y now (s\<lparr>lastTouch := Some (x, y)\<rparr>))"

text \<open>
  \<^verbatim>\<open>startGame()\<close> of part_000: no loop is started, and neither \<open>moving\<close> nor the
  pending animation is reset.
\<close>

definition startGame_hop :: "real \<Rightarrow> real \<Rightarrow> int \<Rightarrow> hop_game \<Rightarrow> error + hop_game" where
  "startGame_hop w h now s =
     (case fitCanvas w h s of
        Inl e \<Rightarrow> Inl e
      | Inr s1 \<Rightarrow>
     (case new_maze (difficultyForAge (age s1)) (difficultyForAge (age s1)) (Some now) now of
        Inl e \<Rightarrow> Inl e
      | Inr m0 \<Rightarrow>
     (let m = m0\<lparr>start := (0, 0), goal := (cols m0 - 1, rows m0 - 1)\<rparr>
      in case drawMaze m (canvasW s1) (canvasH s1) of
        Inl e \<Rightarrow> Inl e
      | Inr mt \<Rightarrow>
     (let p = cellCenter mt (fst (start m)) (snd (start m))
      in drawAll (s1\<lparr>maze_set := True, the_maze := m, the_metrics := mt,
                     player_cell := Some (start m),
                     player_x := fst p, player_y := snd p,
                     player_radius := max 10 (of_int \<lfloor>cellSize mt * 0.28\<rfloor>),
                     targetX := fst p, targetY := snd p\<rparr>)))))"

fun hop_event :: "event \<Rightarrow> hop_game \<Rightarrow> error + hop_game" where
  "hop_event (PointerStart x y) s = Inr (onStart x y s)"
| "hop_event (PointerMove x y now) s = onMove_hop x y now s"
| "hop_event PointerEnd s = Inr (onEnd s)"
| "hop_event (Frame now) s = (case anim s of None \<Rightarrow> Inr s | Some speed \<Rightarrow> anim_step speed s)"
| "hop_event (JumpFrame i) s = jump_frame i s"
| "hop_event (Resize w h) s = fitCanvas w h s"
| "hop_event (StartGame w h now) s = startGame_hop w h now s"

fun hop_run :: "event list \<Rightarrow> hop_game \<Rightarrow> error + hop_game" where
  "hop_run [] s = Inr s"
| "hop_run (e # es) s = (case hop_event e s of Inl x \<Rightarrow> Inl x | Inr s' \<Rightarrow> hop_run es s')"

subsection \<open>A concrete level\<close>

text \<open>
  The 2 x 1 maze as \<open>generate\<close> leaves it (one passage, between its two cells), drawn on
  a canvas of 232 x 132 pixels, with the player at the centre of the start cell.
\<close>

definition corridor :: maze where
  "corridor = \<lparr>cols = 2, rows = 1,
     grid = [\<lparr>cell_x = 0, cell_y = 0, passages = 2\<rparr>, \<lparr>cell_x = 1, cell_y = 0, passages = 8\<rparr>],
     start = (0, 0), goal = (1, 0)\<rparr>"

definition corridor_game :: loop_game where
  "corridor_game =
     \<lparr>maze_set = True, the_maze = corridor, canvasW = 232, canvasH = 132,
      the_metrics = \<lparr>cellSize = 50, originX = 66, originY = 41\<rparr>,
      player_cell = Some (0, 0), player_x = 91, player_y = 66, player_radius = 12,
      hurtFlash = 0, dragging = True, lastTouch = Some (41, 16), lastHurtAt = 0,
      age = Some 3, coins = 0, jumps = [], hurt_log = [], goal_count = 0,
      running = True, won = False\<rparr>"

subsection \<open>A level of the game\<close>

text \<open>
  The variables when the script has been loaded and the player has chosen the age 3, before
  the first \<open>startGame\<close>: no maze yet, a canvas without size (its screen is hidden), the
  initial \<open>player\<close> object, and an empty store. The two versions add the initial values of
  their own variables.
\<close>

definition no_maze :: maze where
  "no_maze = \<lparr>cols = 0, rows = 0, grid = [], start = (0, 0), goal = (0, 0)\<rparr>"

definition page_load :: game where
  "page_load =
     \<lparr>maze_set = False, the_maze = no_maze, canvasW = 0, canvasH = 0,
      the_metrics = \<lparr>cellSize = 0, originX = 0, originY = 0\<rparr>,
      player_cell = Some (0, 0), player_x = 0, player_y = 0, player_radius = 16,
      hurtFlash = 0, dragging = False, lastTouch = None, lastHurtAt = 0,
      age = Some 3, coins = 0, jumps = [], hurt_log = [], goal_count = 0\<rparr>"

definition hop_page_load :: hop_game where
  "hop_page_load =
     game.extend page_load
       \<lparr>targetX = 0, targetY = 0, moving = False, queuedDir = None, anim = None\<rparr>"

definition loop_page_load :: loop_game where
  "loop_page_load = game.extend page_load \<lparr>running = False, won = False\<rparr>"

text \<open>
  The level that \<open>startGame\<close> builds on a canvas of 532 x 532 pixels when \<open>Date.now()\<close>
  reads 1762167600000: a maze of 5 x 5 cells of 100 pixels, the first cell centre at
  \<open>(66, 66)\<close>. \<open>way_to_goal\<close> is the path of this maze from the start to the goal.
\<close>

definition level_start :: event where
  "level_start = StartGame 532 532 1762167600000"

definition level_metrics :: metrics where
  "level_metrics = \<lparr>cellSize = 100, originX = 16, originY = 16\<rparr>"

definition way_to_goal :: "(int \<times> int) list" where
  "way_to_goal = [(0, 0), (1, 0), (1, 1), (0, 1), (0, 2), (1, 2), (2, 2), (2, 1), (3, 1),
                  (4, 1), (4, 2), (3, 2), (3, 3), (3, 4), (4, 4)]"

text \<open>
  What the player does in part_000 to hop from the cell \<open>a\<close> to its neighbour \<open>b\<close>: press
  on the agent, move the pointer to the centre of \<open>b\<close>, release; the animation then takes
  five frames (24 pixels each, the last one snaps to the target).
\<close>

definition drag_hop :: "int \<times> int \<Rightarrow> int \<times> int \<Rightarrow> real \<Rightarrow> event list" where
  "drag_hop a b now =
     [PointerStart (fst (cellCenter level_metrics (fst a) (snd a)))
                   (snd (cellCenter level_metrics (fst a) (snd a))),
      PointerMove (fst (cellCenter level_metrics (fst b) (snd b)))
                  (snd (cellCenter level_metrics (fst b) (snd b))) now,
      PointerEnd,
      Frame (now + 17), Frame (now + 34), Frame (now + 51), Frame (now + 68), Frame (now + 85)]"

fun drag_hops :: "(int \<times> int) list \<Rightarrow> real \<Rightarrow> event list" where
  "drag_hops (a # b # cs) now = drag_hop a b now @ drag_hops (b # cs) (now + 85)"
| "drag_hops cs now = []"

text \<open>The 22 frames of the jump animation that the first \<open>onGoal\<close> starts.\<close>

definition jump_frames :: "event list" where
  "jump_frames = [JumpFrame 0, JumpFrame 0, JumpFrame 0, JumpFrame 0, JumpFrame 0, JumpFrame 0,
     JumpFrame 0, JumpFrame 0, JumpFrame 0, JumpFrame 0, JumpFrame 0, JumpFrame 0, JumpFrame 0,
     JumpFrame 0, JumpFrame 0, JumpFrame 0, JumpFrame 0, JumpFrame 0, JumpFrame 0, JumpFrame 0,
     JumpFrame 0, JumpFrame 0]"

text \<open>
  The player of part_000 hops along the path to the goal (the last hop ends at 2190 ms),
  watches the jump (until 2564 ms), then hops to the neighbour \<open>(3, 4)\<close> and back. The
  second arrival is at 2734 ms, 544 ms after the first and so before the timer of 900 ms
  that the first \<open>onGoal\<close> has set calls \<open>startGame\<close>.
\<close>

definition to_goal :: "event list" where
  "to_goal = drag_hops way_to_goal 1000"

definition out_and_back :: "event list" where
  "out_and_back = drag_hops [(4, 4), (3, 4), (4, 4)] 2564"

text \<open>
  The same in main.js: the player presses on the agent and drags the pointer from one cell
  centre of the path to the next; each leg takes four frames of the loop (32 pixels each,
  the last one 4 pixels).
\<close>

definition glide :: "int \<times> int \<Rightarrow> real \<Rightarrow> event list" where
  "glide b now =
     [PointerMove (fst (cellCenter level_metrics (fst b) (snd b)))
                  (snd (cellCenter level_metrics (fst b) (snd b))) now,
      Frame (now + 17), Frame (now + 34), Frame (now + 51), Frame (now + 68)]"

fun glides :: "(int \<times> int) list \<Rightarrow> real \<Rightarrow> event list" where
  "glides (b # cs) now = glide b now @ glides cs (now + 68)"
| "glides [] now = []"

definition drag_to_goal :: "event list" where
  "drag_to_goal = PointerStart 66 66 # glides (tl way_to_goal) 1000"

definition drag_out_and_back :: "event list" where
  "drag_out_and_back = glides [(3, 4), (4, 4)] 1952"

section \<open>Properties of the maze queries\<close>

lemma idx_in_range:
  assumes "wf_maze m" "in_grid m (x, y)"
  shows "0 \<le> idx m x y \<and> idx m x y < int (length (grid m))"
proof -
  from assms have x: "0 \<le> x" "x < cols m" and y: "0 \<le> y" "y < rows m"
    by (simp_all add: in_grid_def)
  have "y * cols m + x < (y + 1) * cols m" using x by (simp add: algebra_simps)
  also have "\<dots> \<le> rows m * cols m" using y x by (intro mult_right_mono) auto
  finally have "idx m x y < cols m * rows m" by (simp add: idx_def mult.commute)
  moreover have "0 \<le> idx m x y" using x y by (simp add: idx_def)
  ultimately show ?thesis using assms(1) by (simp add: wf_maze_def)
qed

lemma grid_at_in_grid:
  assumes "wf_maze m" "in_grid m (x, y)"
  shows "grid_at m (idx m x y) = Some (grid m ! nat (idx m x y))"
  using idx_in_range [OF assms] by (simp add: grid_at_def)

lemma wf_Maze: "Maze c r = Inr m \<Longrightarrow> 0 \<le> c \<Longrightarrow> 0 \<le> r \<Longrightarrow> wf_maze m"
  by (auto simp: Maze_def wf_maze_def split: if_splits)

lemma exits_grid:
  assumes "in_grid m (x, y)" "dir \<in> {0, 1, 2, 3}" "\<not> in_grid m (toward (x, y) dir)"
  shows "dir = 0 \<and> y \<le> 0 \<or> dir = 1 \<and> x \<ge> cols m - 1 \<or> dir = 2 \<and> y \<ge> rows m - 1
         \<or> dir = 3 \<and> x \<le> 0"
  using assms by (auto simp: in_grid_def toward_def split: if_splits)

text \<open>
  C1 (as amended). \<open>canMove\<close> has no range check of its own. For a cell \<open>(x, y)\<close> inside
  the grid of a well-formed maze and a direction in \<open>{0, 1, 2, 3}\<close> it returns a boolean
  without throwing, and the boolean is \<open>false\<close> whenever the move would leave
  \<open>[0, cols) \<times> [0, rows)\<close>, whatever the passage mask holds.
\<close>

theorem canMove_in_grid_boundary:
  assumes "wf_maze m" "in_grid m (x, y)" "dir \<in> {0, 1, 2, 3}"
  shows "(canMove m x y dir = Inr True \<or> canMove m x y dir = Inr False)
         \<and> (\<not> in_grid m (toward (x, y) dir) \<longrightarrow> canMove m x y dir = Inr False)"
proof (cases "in_grid m (toward (x, y) dir)")
  case True
  then show ?thesis
    by (simp add: canMove_def grid_at_in_grid [OF assms(1,2)])
next
  case False
  from exits_grid [OF assms(2,3) False] show ?thesis
    by (auto simp: canMove_def grid_at_in_grid [OF assms(1,2)])
qed

theorem canMove_in_grid_boundary_witness:
  "wf_maze \<lparr>cols = 1, rows = 2,
            grid = [\<lparr>cell_x = 0, cell_y = 0, passages = 15\<rparr>, \<lparr>cell_x = 0, cell_y = 1, passages = 15\<rparr>],
            start = (0, 0), goal = (0, 1)\<rparr>
   \<and> canMove \<lparr>cols = 1, rows = 2,
            grid = [\<lparr>cell_x = 0, cell_y = 0, passages = 15\<rparr>, \<lparr>cell_x = 0, cell_y = 1, passages = 15\<rparr>],
            start = (0, 0), goal = (0, 1)\<rparr> 0 1 2 = Inr False"
  using canMove_in_grid_boundary [of "\<lparr>cols = 1, rows = 2,
            grid = [\<lparr>cell_x = 0, cell_y = 0, passages = 15\<rparr>, \<lparr>cell_x = 0, cell_y = 1, passages = 15\<rparr>],
            start = (0, 0), goal = (0, 1)\<rparr>" 0 1 2]
  by (simp add: wf_maze_def in_grid_def toward_def)

text \<open>
  C1 as stated fails outside the grid. On the 1 x 1 maze, \<^verbatim>\<open>canMove(-1, 0, 3)\<close> reads
  \<^verbatim>\<open>grid[-1]\<close>, which is \<open>undefined\<close>, and throws. On a 2 x 3 maze whose cell
  \<open>(1, 0)\<close> is open downwards, \<^verbatim>\<open>canMove(-1, 1, 2)\<close> reads \<^verbatim>\<open>grid[1]\<close>, the cell
  \<open>(1, 0)\<close>, and returns \<open>true\<close>.
\<close>

theorem canMove_out_of_grid_counterexample:
  "Maze 1 1 = Inr \<lparr>cols = 1, rows = 1, grid = [new_Cell 0 0], start = (0, 0), goal = (0, 0)\<rparr>
   \<and> \<not> in_grid \<lparr>cols = 1, rows = 1, grid = [new_Cell 0 0], start = (0, 0), goal = (0, 0)\<rparr> (- 1, 0)
   \<and> canMove \<lparr>cols = 1, rows = 1, grid = [new_Cell 0 0], start = (0, 0), goal = (0, 0)\<rparr> (- 1) 0 3
       = Inl TypeError
   \<and> \<not> in_grid \<lparr>cols = 2, rows = 3,
         grid = [new_Cell 0 0, Cell_open (new_Cell 1 0) 2, new_Cell 0 1,
                 Cell_open (new_Cell 1 1) 0, new_Cell 0 2, new_Cell 1 2],
         start = (0, 0), goal = (1, 2)\<rparr> (- 1, 1)
   \<and> canMove \<lparr>cols = 2, rows = 3,
         grid = [new_Cell 0 0, Cell_open (new_Cell 1 0) 2, new_Cell 0 1,
                 Cell_open (new_Cell 1 1) 0, new_Cell 0 2, new_Cell 1 2],
         start = (0, 0), goal = (1, 2)\<rparr> (- 1) 1 2 = Inr True"
  by (simp add: Maze_def upto.simps in_grid_def canMove_def grid_at_def idx_def isOpen_def
      Cell_open_def new_Cell_def dir_bit_def)

lemma cellFromPoint_in_grid:
  "cellFromPoint m mt px py = CellAt a b \<Longrightarrow> in_grid m (a, b)"
  by (auto simp: cellFromPoint_def Let_def in_grid_def split: if_splits)

lemma canMove_open_neighbour:
  assumes "wf_maze m" "in_grid m (x, y)" "dir \<in> {0, 1, 2, 3}" "in_grid m (toward (x, y) dir)"
  shows "canMove m x y dir = Inr (isOpen (grid m ! nat (idx m x y)) dir)"
  using assms(2,3,4)
  by (auto simp: canMove_def grid_at_in_grid [OF assms(1,2)] in_grid_def toward_def)

lemma canTraverse_adjacent:
  assumes "cellFromPoint m mt x1 y1 = CellAt ax ay"
    and "cellFromPoint m mt x2 y2 = CellAt bx by"
    and "dir \<in> {0, 1, 2, 3}" "(bx, by) = toward (ax, ay) dir"
  shows "canTraverse m mt x1 y1 x2 y2 = canMove m ax ay dir"
  using assms by (auto simp: canTraverse_def toward_def Let_def)

lemma canTraverse_null:
  "cellFromPoint m mt x1 y1 = Null \<or> cellFromPoint m mt x2 y2 = Null
   \<Longrightarrow> canTraverse m mt x1 y1 x2 y2 = Inr False"
  by (auto simp: canTraverse_def split: cellref.splits)

text \<open>
  C4. For two positions that map to cells \<open>(ax, ay)\<close> and \<open>(bx, by)\<close> of a well-formed
  maze: \<open>canTraverse\<close> returns true when the cells are the same; when \<open>(bx, by)\<close> is
  the neighbour of \<open>(ax, ay)\<close> in direction \<open>dir\<close> it returns what
  \<open>canMove(ax, ay, dir)\<close> returns, which is whether that passage bit is open; and when
  the cells differ by more than one unit or on both axes it returns false.
\<close>

theorem canTraverse_cases:
  assumes "wf_maze m"
    and a: "cellFromPoint m mt x1 y1 = CellAt ax ay"
    and b: "cellFromPoint m mt x2 y2 = CellAt bx by"
  shows "(ax = bx \<and> ay = by \<longrightarrow> canTraverse m mt x1 y1 x2 y2 = Inr True)
       \<and> (\<forall>dir \<in> {0, 1, 2, 3}. (bx, by) = toward (ax, ay) dir \<longrightarrow>
            canTraverse m mt x1 y1 x2 y2 = canMove m ax ay dir
            \<and> canMove m ax ay dir = Inr (isOpen (grid m ! nat (idx m ax ay)) dir))
       \<and> (\<bar>bx - ax\<bar> > 1 \<or> \<bar>by - ay\<bar> > 1 \<or> (bx \<noteq> ax \<and> by \<noteq> ay) \<longrightarrow>
            canTraverse m mt x1 y1 x2 y2 = Inr False)"
proof (intro conjI impI ballI)
  assume "ax = bx \<and> ay = by"
  then show "canTraverse m mt x1 y1 x2 y2 = Inr True"
    using a b by (simp add: canTraverse_def)
next
  fix dir :: int
  assume d: "dir \<in> {0, 1, 2, 3}" and t: "(bx, by) = toward (ax, ay) dir"
  show "canTraverse m mt x1 y1 x2 y2 = canMove m ax ay dir"
    by (rule canTraverse_adjacent [OF a b d t])
  have "in_grid m (toward (ax, ay) dir)"
    using cellFromPoint_in_grid [OF b] t by simp
  then show "canMove m ax ay dir = Inr (isOpen (grid m ! nat (idx m ax ay)) dir)"
    using canMove_open_neighbour [OF assms(1) cellFromPoint_in_grid [OF a] d] by simp
next
  assume "\<bar>bx - ax\<bar> > 1 \<or> \<bar>by - ay\<bar> > 1 \<or> (bx \<noteq> ax \<and> by \<noteq> ay)"
  then show "canTraverse m mt x1 y1 x2 y2 = Inr False"
    using a b by (auto simp: canTraverse_def Let_def)
qed

theorem canTraverse_cases_witness:
  "wf_maze corridor
   \<and> cellFromPoint corridor \<lparr>cellSize = 10, originX = 0, originY = 0\<rparr> 5 5 = CellAt 0 0
   \<and> cellFromPoint corridor \<lparr>cellSize = 10, originX = 0, originY = 0\<rparr> 15 5 = CellAt 1 0
   \<and> (1, 0) = toward (0, 0) 1
   \<and> canTraverse corridor \<lparr>cellSize = 10, originX = 0, originY = 0\<rparr> 5 5 15 5 = Inr True"
  using canTraverse_cases [of corridor "\<lparr>cellSize = 10, originX = 0, originY = 0\<rparr>" 5 5 0 0 15 5 1 0]
  by (simp add: corridor_def wf_maze_def cellFromPoint_def toward_def idx_def isOpen_def dir_bit_def)

section \<open>Properties of the layout\<close>

lemma floor_half: "\<lfloor>(of_int cx + 0.5 :: real)\<rfloor> = cx"
  by linarith

lemma cell_round_trip_any:
  assumes "in_grid m (cx, cy)" "cellSize mt \<noteq> 0"
  shows "cellFromPoint m mt (fst (cellCenter mt cx cy)) (snd (cellCenter mt cx cy)) = CellAt cx cy"
  using assms by (simp add: cellFromPoint_def cellCenter_def in_grid_def floor_half)

text \<open>
  C6 (as amended). For every cell \<open>(cx, cy)\<close> of the grid and the metrics that
  \<open>drawMaze\<close> returns, \<open>cellFromPoint\<close> of \<open>cellCenter(cx, cy)\<close> is \<open>(cx, cy)\<close>,
  provided that \<open>cellSize\<close> is not 0.
\<close>

theorem cell_round_trip:
  assumes "in_grid m (cx, cy)" "drawMaze m w h = Inr mt" "cellSize mt \<noteq> 0"
  shows "cellFromPoint m mt (fst (cellCenter mt cx cy)) (snd (cellCenter mt cx cy)) = CellAt cx cy"
  by (rule cell_round_trip_any [OF assms(1,3)])

theorem cell_round_trip_witness:
  "in_grid corridor (1, 0)
   \<and> drawMaze corridor 232 132 = Inr \<lparr>cellSize = 50, originX = 66, originY = 41\<rparr>
   \<and> cellCenter \<lparr>cellSize = 50, originX = 66, originY = 41\<rparr> 1 0 = (141, 66)
   \<and> cellFromPoint corridor \<lparr>cellSize = 50, originX = 66, originY = 41\<rparr> 141 66 = CellAt 1 0"
  using cell_round_trip [of corridor 1 0 232 132 "\<lparr>cellSize = 50, originX = 66, originY = 41\<rparr>"]
  by (simp add: corridor_def in_grid_def drawMaze_def cellCenter_def)

text \<open>
  C6 as stated fails on a canvas whose smaller side is 32 pixels: \<open>drawMaze\<close> returns
  \<open>cellSize = 0\<close>, every cell centre is the origin, and \<open>cellFromPoint\<close> divides 0 by 0:
  it returns \<open>{x: NaN, y: NaN}\<close>, not the cell.
\<close>

theorem cell_round_trip_counterexample:
  "in_grid corridor (1, 0)
   \<and> drawMaze corridor 32 32 = Inr \<lparr>cellSize = 0, originX = 16, originY = 16\<rparr>
   \<and> cellCenter \<lparr>cellSize = 0, originX = 16, originY = 16\<rparr> 1 0 = (16, 16)
   \<and> cellFromPoint corridor \<lparr>cellSize = 0, originX = 16, originY = 16\<rparr> 16 16 = NaNCell
   \<and> NaNCell \<noteq> CellAt 1 0"
  by (simp add: corridor_def in_grid_def drawMaze_def cellCenter_def cellFromPoint_def)

section \<open>Properties of the movement\<close>

lemma canTraverse_total:
  assumes "wf_maze m"
  shows "canTraverse m mt x1 y1 x2 y2 = Inr True \<or> canTraverse m mt x1 y1 x2 y2 = Inr False"
proof (cases "cellFromPoint m mt x1 y1")
  case (CellAt ax ay)
  note a = this
  show ?thesis
  proof (cases "cellFromPoint m mt x2 y2")
    case (CellAt bx bY)
    have g: "grid_at m (idx m ax ay) = Some (grid m ! nat (idx m ax ay))"
      by (rule grid_at_in_grid [OF assms cellFromPoint_in_grid [OF a]])
    show ?thesis
      by (simp add: canTraverse_def a CellAt Let_def canMove_def g)
  qed (simp_all add: canTraverse_def a)
qed (simp_all add: canTraverse_def)

lemma canTraverse_True_dest:
  assumes "canTraverse m mt x1 y1 x2 y2 = Inr True"
  shows "\<exists>a b. cellFromPoint m mt x2 y2 = CellAt a b"
  using assms by (auto simp: canTraverse_def split: cellref.splits)

lemma drawMaze_total:
  "1 \<le> cols m \<Longrightarrow> 1 \<le> rows m \<Longrightarrow> \<exists>mt. drawMaze m w h = Inr mt"
  by (simp add: drawMaze_def Let_def)

lemma maybeHurt_total:
  assumes "1 \<le> cols (the_maze s)" "1 \<le> rows (the_maze s)"
  shows "\<exists>s'. maybeHurt now s = Inr s'"
  using drawMaze_total [OF assms, of "canvasW s" "canvasH s"]
  by (auto simp: maybeHurt_def hurt_def drawAll_def)

lemma maybeHurt_fields:
  assumes "maybeHurt now s = Inr s'"
  shows "the_maze s' = the_maze s"
    and "hurt_log s' = (if now - lastHurtAt s > 220 then hurt_log s @ [now] else hurt_log s)"
    and "lastHurtAt s' = (if now - lastHurtAt s > 220 then now else lastHurtAt s)"
    and "goal_count s' = goal_count s" and "jumps s' = jumps s"
    and "canvasW s' = canvasW s" "canvasH s' = canvasH s"
  using assms by (auto simp: maybeHurt_def hurt_def drawAll_def split: if_splits sum.splits)

lemma maybeHurt_metrics:
  assumes "maybeHurt now s = Inr s'" "synced s"
  shows "the_metrics s' = the_metrics s"
  using assms by (auto simp: maybeHurt_def hurt_def drawAll_def synced_def split: if_splits sum.splits)

text \<open>
  C5. In a level (a well-formed maze with at least one cell) \<open>attemptMove\<close> returns the
  full step when it is traversable; else the slide on X when that is traversable; else
  the slide on Y when that is traversable; else the input position, unchanged, after
  a call of \<open>maybeHurt\<close>, which fires the hurt event if more than 220 ms have passed
  since the last one.
\<close>

theorem attemptMove_priorities:
  assumes "wf_maze (the_maze s)" "1 \<le> cols (the_maze s)" "1 \<le> rows (the_maze s)"
  shows "(canTraverse (the_maze s) (the_metrics s) cx cy (cx + dx) (cy + dy) = Inr True \<longrightarrow>
            attemptMove s now cx cy dx dy = Inr ((cx + dx, cy + dy), s))
       \<and> (canTraverse (the_maze s) (the_metrics s) cx cy (cx + dx) (cy + dy) \<noteq> Inr True
          \<and> canTraverse (the_maze s) (the_metrics s) cx cy (cx + dx) cy = Inr True \<longrightarrow>
            attemptMove s now cx cy dx dy = Inr ((cx + dx, cy), s))
       \<and> (canTraverse (the_maze s) (the_metrics s) cx cy (cx + dx) (cy + dy) \<noteq> Inr True
          \<and> canTraverse (the_maze s) (the_metrics s) cx cy (cx + dx) cy \<noteq> Inr True
          \<and> canTraverse (the_maze s) (the_metrics s) cx cy cx (cy + dy) = Inr True \<longrightarrow>
            attemptMove s now cx cy dx dy = Inr ((cx, cy + dy), s))
       \<and> (canTraverse (the_maze s) (the_metrics s) cx cy (cx + dx) (cy + dy) \<noteq> Inr True
          \<and> canTraverse (the_maze s) (the_metrics s) cx cy (cx + dx) cy \<noteq> Inr True
          \<and> canTraverse (the_maze s) (the_metrics s) cx cy cx (cy + dy) \<noteq> Inr True \<longrightarrow>
            (\<exists>s'. attemptMove s now cx cy dx dy = Inr ((cx, cy), s')
                 \<and> maybeHurt now s = Inr s'
                 \<and> hurt_log s' =
                     (if now - lastHurtAt s > 220 then hurt_log s @ [now] else hurt_log s)))"
proof -
  let ?full = "canTraverse (the_maze s) (the_metrics s) cx cy (cx + dx) (cy + dy)"
  let ?sx = "canTraverse (the_maze s) (the_metrics s) cx cy (cx + dx) cy"
  let ?sy = "canTraverse (the_maze s) (the_metrics s) cx cy cx (cy + dy)"
  have f: "?full = Inr True \<or> ?full = Inr False" by (rule canTraverse_total [OF assms(1)])
  have x: "?sx = Inr True \<or> ?sx = Inr False" by (rule canTraverse_total [OF assms(1)])
  have y: "?sy = Inr True \<or> ?sy = Inr False" by (rule canTraverse_total [OF assms(1)])
  obtain s' where h: "maybeHurt now s = Inr s'"
    using maybeHurt_total [OF assms(2,3)] by blast
  note hl = maybeHurt_fields(2) [OF h]
  show ?thesis
    using f x y h hl by (auto simp: attemptMove_def)
qed

theorem attemptMove_priorities_witness:
  "wf_maze (the_maze corridor_game)
   \<and> canTraverse corridor (the_metrics corridor_game) 91 66 61 36 = Inr False
   \<and> canTraverse corridor (the_metrics corridor_game) 91 66 61 66 = Inr False
   \<and> canTraverse corridor (the_metrics corridor_game) 91 66 91 36 = Inr False
   \<and> attemptMove corridor_game 1000 91 66 (- 30) (- 30)
       = Inr ((91, 66), corridor_game\<lparr>hurtFlash := 7, lastHurtAt := 1000, hurt_log := [1000]\<rparr>)
   \<and> attemptMove corridor_game 1000 91 66 30 (- 30)
       = Inr ((121, 66), corridor_game)"
  using attemptMove_priorities [of corridor_game 91 66 "- 30" "- 30" 1000]
    attemptMove_priorities [of corridor_game 91 66 30 "- 30" 1000]
  by (simp add: corridor_game_def corridor_def wf_maze_def canTraverse_def cellFromPoint_def
      maybeHurt_def hurt_def drawAll_def drawMaze_def canMove_def grid_at_def idx_def isOpen_def
      dir_bit_def Let_def)

lemma attemptMove_result:
  assumes "wf_maze (the_maze s)" "1 \<le> cols (the_maze s)" "1 \<le> rows (the_maze s)"
  shows "\<exists>p s'. attemptMove s now cx cy dx dy = Inr (p, s')
           \<and> (p = (cx, cy) \<and> maybeHurt now s = Inr s'
              \<or> s' = s \<and> canTraverse (the_maze s) (the_metrics s) cx cy (fst p) (snd p) = Inr True)"
proof -
  let ?full = "canTraverse (the_maze s) (the_metrics s) cx cy (cx + dx) (cy + dy)"
  let ?sx = "canTraverse (the_maze s) (the_metrics s) cx cy (cx + dx) cy"
  let ?sy = "canTraverse (the_maze s) (the_metrics s) cx cy cx (cy + dy)"
  have f: "?full = Inr True \<or> ?full = Inr False" by (rule canTraverse_total [OF assms(1)])
  have x: "?sx = Inr True \<or> ?sx = Inr False" by (rule canTraverse_total [OF assms(1)])
  have y: "?sy = Inr True \<or> ?sy = Inr False" by (rule canTraverse_total [OF assms(1)])
  obtain s' where h: "maybeHurt now s = Inr s'"
    using maybeHurt_total [OF assms(2,3)] by blast
  show ?thesis
    using f x y h by (auto simp: attemptMove_def)
qed

lemma drawAll_synced:
  assumes "drawAll s = Inr s'"
  shows "synced s'" "the_maze s' = the_maze s" "canvasW s' = canvasW s" "canvasH s' = canvasH s"
  using assms by (auto simp: drawAll_def synced_def split: sum.splits)

lemma maybeHurt_synced:
  assumes "maybeHurt now s = Inr s'" "synced s"
  shows "synced s'"
proof (cases "now - lastHurtAt s > 220")
  case True
  with assms(1) have "drawAll (s\<lparr>lastHurtAt := now, hurtFlash := 8, hurt_log := hurt_log s @ [now]\<rparr>) = Inr s'"
    by (simp add: maybeHurt_def hurt_def)
  then show ?thesis by (rule drawAll_synced(1))
next
  case False
  with assms show ?thesis by (simp add: maybeHurt_def)
qed

text \<open>
  C10. When the starting position maps to a cell of the grid, \<open>attemptMove\<close> returns
  (without an exception, and with the maze unchanged) a position that maps to a cell of the
  grid as well, under the metrics that \<open>attemptMove\<close> and its \<open>canTraverse\<close> checks read.
  \<open>hurt()\<close> redraws and so assigns the metrics anew: wherever they were those of the present
  canvas before the call, they are the same after it, and the returned position maps to
  the same cell of the grid in the state after the call. That is so in every state of the
  game from the first \<open>startGame\<close> on: \<open>drawAll\<close>, \<open>fitCanvas\<close> and \<open>startGame\<close> assign the
  metrics of the present canvas and every event keeps them (\<open>loop_event_level\<close>,
  \<open>loop_level_states\<close>).
\<close>

theorem attemptMove_stays_in_grid:
  assumes "wf_maze (the_maze s)"
    and "cellFromPoint (the_maze s) (the_metrics s) cx cy = CellAt a b"
  shows "\<exists>p s' a' b'. attemptMove s now cx cy dx dy = Inr (p, s')
           \<and> the_maze s' = the_maze s
           \<and> cellFromPoint (the_maze s) (the_metrics s) (fst p) (snd p) = CellAt a' b'
           \<and> in_grid (the_maze s) (a', b')
           \<and> (synced s \<longrightarrow> synced s'
                \<and> cellFromPoint (the_maze s') (the_metrics s') (fst p) (snd p) = CellAt a' b')"
proof -
  have g: "in_grid (the_maze s) (a, b)" by (rule cellFromPoint_in_grid [OF assms(2)])
  then have c: "1 \<le> cols (the_maze s)" "1 \<le> rows (the_maze s)" by (auto simp: in_grid_def)
  from attemptMove_result [OF assms(1) c, of now cx cy dx dy]
  obtain p s' where r: "attemptMove s now cx cy dx dy = Inr (p, s')"
    and d: "p = (cx, cy) \<and> maybeHurt now s = Inr s'
            \<or> s' = s \<and> canTraverse (the_maze s) (the_metrics s) cx cy (fst p) (snd p) = Inr True"
    by blast
  from d show ?thesis
  proof
    assume h: "p = (cx, cy) \<and> maybeHurt now s = Inr s'"
    then have m: "the_maze s' = the_maze s"
      using maybeHurt_fields(1) [of now s s'] by simp
    have "synced s'" "the_metrics s' = the_metrics s" if "synced s"
      using h that maybeHurt_synced [of now s s'] maybeHurt_metrics [of now s s'] by simp_all
    with r h m assms(2) g show ?thesis by simp
  next
    assume t: "s' = s \<and> canTraverse (the_maze s) (the_metrics s) cx cy (fst p) (snd p) = Inr True"
    then obtain a' b' where c: "cellFromPoint (the_maze s) (the_metrics s) (fst p) (snd p) = CellAt a' b'"
      using canTraverse_True_dest by blast
    have "in_grid (the_maze s) (a', b')" by (rule cellFromPoint_in_grid [OF c])
    with r t c show ?thesis by simp
  qed
qed

theorem attemptMove_stays_in_grid_witness:
  "wf_maze (the_maze corridor_game) \<and> synced corridor_game
   \<and> cellFromPoint (the_maze corridor_game) (the_metrics corridor_game) 91 66 = CellAt 0 0
   \<and> attemptMove corridor_game 1000 91 66 19 0 = Inr ((110, 66), corridor_game)
   \<and> cellFromPoint (the_maze corridor_game) (the_metrics corridor_game) 110 66 = CellAt 0 0
   \<and> attemptMove corridor_game 1000 110 66 19 0 = Inr ((129, 66), corridor_game)
   \<and> cellFromPoint (the_maze corridor_game) (the_metrics corridor_game) 129 66 = CellAt 1 0
   \<and> attemptMove corridor_game 1000 91 66 (- 30) (- 30)
       = Inr ((91, 66), corridor_game\<lparr>hurtFlash := 7, lastHurtAt := 1000, hurt_log := [1000]\<rparr>)
   \<and> \<not> synced (corridor_game\<lparr>canvasW := 432\<rparr>)
   \<and> attemptMove (corridor_game\<lparr>canvasW := 432\<rparr>) 1000 91 66 (- 30) (- 30)
       = Inr ((91, 66), corridor_game\<lparr>canvasW := 432,
                 the_metrics := \<lparr>cellSize = 50, originX = 166, originY = 41\<rparr>,
                 hurtFlash := 7, lastHurtAt := 1000, hurt_log := [1000]\<rparr>)"
  using attemptMove_stays_in_grid [of corridor_game 91 66 0 0 1000 19 0]
    attemptMove_stays_in_grid [of corridor_game 110 66 0 0 1000 19 0]
    attemptMove_stays_in_grid [of corridor_game 91 66 0 0 1000 "- 30" "- 30"]
    attemptMove_stays_in_grid [of "corridor_game\<lparr>canvasW := 432\<rparr>" 91 66 0 0 1000 "- 30" "- 30"]
  by (simp add: corridor_game_def corridor_def wf_maze_def synced_def canTraverse_def
      cellFromPoint_def attemptMove_def drawMaze_def canMove_def grid_at_def idx_def isOpen_def
      dir_bit_def Let_def maybeHurt_def hurt_def drawAll_def)

section \<open>Properties of the hurt feedback\<close>

lemma maybeHurt_spaced:
  assumes "hurt_spaced s" "maybeHurt now s = Inr s'"
  shows "hurt_spaced s'"
proof (cases "now - lastHurtAt s > 220")
  case True
  have "\<forall>t \<in> set (hurt_log s). now - t > 220"
    using assms(1) True by (fastforce simp: hurt_spaced_def)
  then show ?thesis
    using assms(1) True maybeHurt_fields(2,3) [OF assms(2)]
    by (auto simp: hurt_spaced_def sorted_wrt_append)
next
  case False
  then show ?thesis
    using assms(1) maybeHurt_fields(2,3) [OF assms(2)] by (simp add: hurt_spaced_def)
qed

lemma maybeHurt_run_spaced:
  "hurt_spaced s \<Longrightarrow> maybeHurt_run ts s = Inr s' \<Longrightarrow> hurt_spaced s'"
proof (induction ts arbitrary: s)
  case Nil
  then show ?case by simp
next
  case (Cons t ts)
  from Cons.prems(2) obtain s1 where s1: "maybeHurt t s = Inr s1" "maybeHurt_run ts s1 = Inr s'"
    by (auto split: sum.splits)
  show ?case
    by (rule Cons.IH [OF maybeHurt_spaced [OF Cons.prems(1) s1(1)] s1(2)])
qed

lemma maybeHurt_run_total:
  assumes "1 \<le> cols (the_maze s)" "1 \<le> rows (the_maze s)"
  shows "\<exists>s'. maybeHurt_run ts s = Inr s'"
  using assms
proof (induction ts arbitrary: s)
  case Nil
  then show ?case by simp
next
  case (Cons t ts)
  obtain s1 where s1: "maybeHurt t s = Inr s1"
    using maybeHurt_total [OF Cons.prems] by blast
  have "the_maze s1 = the_maze s" by (rule maybeHurt_fields(1) [OF s1])
  with Cons.IH [of s1] Cons.prems s1 show ?case by simp
qed

text \<open>
  C9. From a state in which no hurt event has fired yet, any run of \<open>maybeHurt\<close> calls,
  at any clock readings, ends, and the times at which \<open>hurt()\<close> was called are pairwise
  more than 220 ms apart: of any two of them, the later exceeds the earlier by more
  than 220.
\<close>

theorem hurt_rate_limited:
  assumes "hurt_log s = []" "1 \<le> cols (the_maze s)" "1 \<le> rows (the_maze s)"
  shows "\<exists>s'. maybeHurt_run ts s = Inr s'
              \<and> sorted_wrt (\<lambda>t1 t2. t2 - t1 > 220) (hurt_log s')"
proof -
  obtain s' where r: "maybeHurt_run ts s = Inr s'"
    using maybeHurt_run_total [OF assms(2,3)] by blast
  have "hurt_spaced s" using assms(1) by (simp add: hurt_spaced_def)
  from maybeHurt_run_spaced [OF this r] r show ?thesis
    by (auto simp: hurt_spaced_def)
qed

theorem hurt_rate_limited_witness:
  "hurt_log corridor_game = [] \<and> 1 \<le> cols (the_maze corridor_game)
   \<and> 1 \<le> rows (the_maze corridor_game)
   \<and> maybeHurt_run [1000, 1100, 1220, 1221, 1300, 1441, 1442] corridor_game
       = Inr (corridor_game\<lparr>hurtFlash := 7, lastHurtAt := 1442, hurt_log := [1000, 1221, 1442]\<rparr>)
   \<and> sorted_wrt (\<lambda>t1 t2. t2 - t1 > 220) [1000, 1221, 1442 :: real]"
  using hurt_rate_limited [of corridor_game "[1000, 1100, 1220, 1221, 1300, 1441, 1442]"]
  by (simp add: corridor_game_def corridor_def maybeHurt_def hurt_def drawAll_def drawMaze_def Let_def)

section \<open>Properties of the generation\<close>

lemma dir_bit_exp: "d \<in> dirs \<Longrightarrow> dir_bit d = 2 ^ nat d"
  by (auto simp: dir_bit_def dirs_def)

lemma isOpen_bit: "d \<in> dirs \<Longrightarrow> isOpen c d \<longleftrightarrow> bit (passages c) (nat d)"
  by (auto simp: isOpen_def dir_bit_def and_exp_eq_0_iff_not_bit push_bit_eq_mult dirs_def)

lemma isOpen_Cell_open:
  assumes "d \<in> dirs" "e \<in> dirs"
  shows "isOpen (Cell_open c d) e \<longleftrightarrow> isOpen c e \<or> e = d"
proof -
  have "bit (passages c OR 2 ^ nat d) (nat e) \<longleftrightarrow> bit (passages c) (nat e) \<or> e = d"
    using assms by (auto simp: bit_or_iff bit_exp_iff dirs_def)
  then show ?thesis
    using assms by (simp add: isOpen_bit Cell_open_def dir_bit_exp)
qed

lemma idx_inj:
  assumes "in_grid m p" "in_grid m q" "idx m (fst p) (snd p) = idx m (fst q) (snd q)"
  shows "p = q"
proof -
  obtain x y x' y' where [simp]: "p = (x, y)" "q = (x', y')" by (cases p, cases q) auto
  from assms have b: "0 \<le> x" "x < cols m" "0 \<le> x'" "x' < cols m"
    and e: "y * cols m + x = y' * cols m + x'"
    by (simp_all add: in_grid_def idx_def)
  have "(y * cols m + x) div cols m = y" "(y' * cols m + x') div cols m = y'"
    using b by simp_all
  with e have "y = y'" by simp
  with e show ?thesis by simp
qed

lemma neighbors_toward:
  assumes "n \<in> set (neighbors m x y)"
  shows "n_dir n \<in> dirs \<and> (n_x n, n_y n) = toward (x, y) (n_dir n)"
  using assms by (auto simp: neighbors_def toward_def dirs_def split: if_splits)

lemma neighbors_in_grid:
  assumes "n \<in> set (neighbors m x y)" "in_grid m (x, y)"
  shows "in_grid m (n_x n, n_y n)"
  using assms by (auto simp: neighbors_def in_grid_def split: if_splits)

lemma neighbors_complete:
  assumes "in_grid m (x, y)" "d \<in> dirs" "in_grid m (toward (x, y) d)"
  shows "\<exists>n \<in> set (neighbors m x y). n_dir n = d \<and> (n_x n, n_y n) = toward (x, y) d"
  using assms by (auto simp: neighbors_def in_grid_def toward_def dirs_def)

lemma toward_back:
  "d \<in> dirs \<Longrightarrow> toward (toward p d) ((d + 2) mod 4) = p"
  by (auto simp: toward_def dirs_def)

lemma opposite_dir: "d \<in> dirs \<Longrightarrow> (d + 2) mod 4 \<in> dirs"
  by (auto simp: dirs_def)

lemma opposite_neq: "d \<in> dirs \<Longrightarrow> (d + 2) mod 4 \<noteq> d"
  by (auto simp: dirs_def)

lemma toward_neq: "d \<in> dirs \<Longrightarrow> toward p d \<noteq> p"
  by (auto simp: toward_def prod_eq_iff)

lemma toward_inj: "d \<in> dirs \<Longrightarrow> e \<in> dirs \<Longrightarrow> toward p d = toward p e \<Longrightarrow> d = e"
  by (auto simp: toward_def prod_eq_iff dirs_def split: if_splits)

lemma open_at_simps [simp]:
  "cols (open_at m i d) = cols m" "rows (open_at m i d) = rows m"
  "length (grid (open_at m i d)) = length (grid m)"
  "in_grid (open_at m i d) p = in_grid m p" "idx (open_at m i d) x y = idx m x y"
  "wf_maze (open_at m i d) = wf_maze m"
  by (simp_all add: open_at_def in_grid_def idx_def wf_maze_def)

lemma grid_open_at: "grid (open_at m i d) = (grid m)[nat i := Cell_open (grid m ! nat i) d]"
  by (simp add: open_at_def)

lemma passage_open_at:
  assumes "wf_maze m" "in_grid m q" "in_grid m p" "d \<in> dirs" "e \<in> dirs"
  shows "passage (open_at m (idx m (fst q) (snd q)) d) p e \<longleftrightarrow> passage m p e \<or> (p = q \<and> e = d)"
proof (cases "p = q")
  case True
  have "nat (idx m (fst q) (snd q)) < length (grid m)"
    using idx_in_range [OF assms(1), of "fst q" "snd q"] assms(2) by auto
  then show ?thesis
    using True assms(4,5) by (simp add: passage_def grid_open_at isOpen_Cell_open)
next
  case False
  have "idx m (fst p) (snd p) \<noteq> idx m (fst q) (snd q)"
    using idx_inj [OF assms(3,2)] False by blast
  moreover have "0 \<le> idx m (fst p) (snd p)" "0 \<le> idx m (fst q) (snd q)"
    using idx_in_range [OF assms(1), of "fst q" "snd q"] idx_in_range [OF assms(1), of "fst p" "snd p"]
      assms(2,3) by simp_all
  ultimately have "nat (idx m (fst p) (snd p)) \<noteq> nat (idx m (fst q) (snd q))" by simp
  then show ?thesis
    using False by (simp add: passage_def grid_open_at)
qed

lemma opened_open_at:
  assumes "wf_maze m" "in_grid m q" "d \<in> dirs"
  shows "opened (open_at m (idx m (fst q) (snd q)) d) = insert (q, d) (opened m)"
proof -
  have "\<And>p e. in_grid m p \<Longrightarrow> e \<in> dirs \<Longrightarrow>
      passage (open_at m (idx m (fst q) (snd q)) d) p e \<longleftrightarrow> passage m p e \<or> (p = q \<and> e = d)"
    by (rule passage_open_at [OF assms(1,2) _ assms(3)])
  then show ?thesis
    using assms(2,3) unfolding opened_def by auto
qed

lemma gen_step_cases [consumes 2, case_names pop carve]:
  assumes "gen_base s" "stack s \<noteq> []"
  obtains (pop) "gen_step s = Inr (s\<lparr>stack := butlast (stack s)\<rparr>)"
      "\<forall>d \<in> dirs. in_grid (this_maze s) (toward (last (stack s)) d)
          \<longrightarrow> toward (last (stack s)) d \<in> visited_cells s"
  | (carve) d s' where "d \<in> dirs"
      "in_grid (this_maze s) (toward (last (stack s)) d)"
      "toward (last (stack s)) d \<notin> visited_cells s"
      "gen_step s = Inr s'"
      "cols (this_maze s') = cols (this_maze s)" "rows (this_maze s') = rows (this_maze s)"
      "wf_maze (this_maze s')"
      "stack s' = stack s @ [toward (last (stack s)) d]"
      "visited_cells s' = insert (toward (last (stack s)) d) (visited_cells s)"
      "opened (this_maze s') =
         opened (this_maze s) \<union> {(last (stack s), d), (toward (last (stack s)) d, (d + 2) mod 4)}"
proof -
  define m where "m = this_maze s"
  define c where "c = last (stack s)"
  define unvisited where "unvisited = filter (\<lambda>n. idx m (n_x n) (n_y n) \<notin> visited s)
                        (neighbors m (fst c) (snd c))"
  have wf: "wf_maze m" using assms(1) by (simp add: gen_base_def m_def)
  have cV: "c \<in> visited_cells s" using assms by (auto simp: gen_base_def c_def)
  then have cg: "in_grid m c" by (simp add: visited_cells_def m_def)
  show thesis
  proof (cases "unvisited = []")
    case True
    then have st: "gen_step s = Inr (s\<lparr>stack := butlast (stack s)\<rparr>)"
      by (simp add: gen_step_def Let_def m_def c_def unvisited_def)
    have "\<forall>d \<in> dirs. in_grid m (toward c d) \<longrightarrow> toward c d \<in> visited_cells s"
    proof (intro ballI impI)
      fix d :: int assume d: "d \<in> dirs" and g: "in_grid m (toward c d)"
      from neighbors_complete [of m "fst c" "snd c" d] cg d g
      obtain n where n: "n \<in> set (neighbors m (fst c) (snd c))" "(n_x n, n_y n) = toward c d"
        by auto
      from True n(1) have "idx m (n_x n) (n_y n) \<in> visited s"
        by (auto simp: unvisited_def filter_empty_conv)
      with n(2) g show "toward c d \<in> visited_cells s"
        by (simp add: visited_cells_def m_def [symmetric] flip: n(2))
    qed
    with st show thesis by (intro pop) (simp_all add: m_def c_def)
  next
    case False
    define n where "n = unvisited ! pick (snd (mulberry32 (rand_a s))) (length unvisited)"
    define d where "d = n_dir n"
    define q where "q = (n_x n, n_y n)"
    define s' where "s' = \<lparr>this_maze = open_at (open_at m (idx m (fst c) (snd c)) d)
                             (idx m (n_x n) (n_y n)) ((d + 2) mod 4),
                            rand_a = fst (mulberry32 (rand_a s)),
                            stack = stack s @ [q],
                            visited = insert (idx m (n_x n) (n_y n)) (visited s)\<rparr>"
    have "n \<in> set unvisited"
      unfolding n_def using False by (intro nth_mem pick_less) simp
    then have nn: "n \<in> set (neighbors m (fst c) (snd c))" and nv: "idx m (n_x n) (n_y n) \<notin> visited s"
      by (simp_all add: unvisited_def)
    from neighbors_toward [OF nn] have d: "d \<in> dirs" and q: "q = toward c d"
      by (simp_all add: d_def q_def)
    have qg: "in_grid m q" using neighbors_in_grid [OF nn] cg by (simp add: q_def)
    have qV: "q \<notin> visited_cells s" using nv by (simp add: visited_cells_def q_def m_def)
    have g1: "grid_at m (idx m (fst c) (snd c)) = Some (grid m ! nat (idx m (fst c) (snd c)))"
      using grid_at_in_grid [OF wf, of "fst c" "snd c"] cg by simp
    have g2: "grid_at m (idx m (n_x n) (n_y n)) = Some (grid m ! nat (idx m (n_x n) (n_y n)))"
      using grid_at_in_grid [OF wf, of "n_x n" "n_y n"] qg by (simp add: q_def)
    have st: "gen_step s = Inr s'"
      unfolding gen_step_def Let_def m_def [symmetric] c_def [symmetric]
          unvisited_def [symmetric] n_def [symmetric] d_def [symmetric]
      using False by (simp add: g1 g2 s'_def q_def)
    have od: "(d + 2) mod 4 \<in> dirs" using d by (rule opposite_dir)
    have m': "this_maze s' = open_at (open_at m (idx m (fst c) (snd c)) d)
                 (idx (open_at m (idx m (fst c) (snd c)) d) (fst q) (snd q)) ((d + 2) mod 4)"
      by (simp add: s'_def q_def)
    have op: "opened (this_maze s') = opened m \<union> {(c, d), (q, (d + 2) mod 4)}"
    proof -
      have "opened (this_maze s') = insert (q, (d + 2) mod 4) (opened (open_at m (idx m (fst c) (snd c)) d))"
        unfolding m' using wf qg od by (intro opened_open_at) simp_all
      also have "opened (open_at m (idx m (fst c) (snd c)) d) = insert (c, d) (opened m)"
        by (rule opened_open_at [OF wf cg d])
      finally show ?thesis by auto
    qed
    have V': "visited_cells s' = insert q (visited_cells s)"
    proof (rule set_eqI)
      fix p
      have a: "p \<in> visited_cells s' \<longleftrightarrow>
          in_grid m p \<and> (idx m (fst p) (snd p) = idx m (fst q) (snd q)
                          \<or> idx m (fst p) (snd p) \<in> visited s)"
        by (simp add: visited_cells_def s'_def q_def)
      have b: "in_grid m p \<Longrightarrow> idx m (fst p) (snd p) = idx m (fst q) (snd q) \<longleftrightarrow> p = q"
        using idx_inj [OF _ qg, of p] by blast
      have c: "p \<in> visited_cells s \<longleftrightarrow> in_grid m p \<and> idx m (fst p) (snd p) \<in> visited s"
        by (simp add: visited_cells_def m_def)
      show "p \<in> visited_cells s' \<longleftrightarrow> p \<in> insert q (visited_cells s)"
        unfolding a insert_iff c using b qg by blast
    qed
    have f: "cols (this_maze s') = cols m" "rows (this_maze s') = rows m" "wf_maze (this_maze s')"
      "stack s' = stack s @ [toward c d]"
      using wf by (simp_all add: s'_def q)
    show thesis
      using d qg qV st f V' op unfolding q m_def c_def by (rule carve)
  qed
qed

lemma visited_cells_pop [simp]: "visited_cells (s\<lparr>stack := st\<rparr>) = visited_cells s"
  by (simp add: visited_cells_def)

lemma gen_base_step:
  assumes "gen_base s" "stack s \<noteq> []" "gen_step s = Inr s'"
  shows "gen_base s'"
  using assms(1,2)
proof (cases rule: gen_step_cases)
  case pop
  with assms have "s' = s\<lparr>stack := butlast (stack s)\<rparr>" by simp
  moreover have "set (butlast (stack s)) \<subseteq> set (stack s)"
    by (auto dest: in_set_butlastD)
  ultimately show ?thesis using assms(1) by (auto simp: gen_base_def)
next
  case (carve d t)
  with assms have [simp]: "t = s'" by simp
  have cV: "last (stack s) \<in> visited_cells s" using assms(1,2) by (auto simp: gen_base_def)
  have tb: "toward (toward (last (stack s)) d) ((d + 2) mod 4) = last (stack s)"
    by (rule toward_back [OF carve(1)])
  show ?thesis
    unfolding gen_base_def
  proof (intro conjI)
    show "wf_maze (this_maze s')" using carve(7) by simp
    show "(0, 0) \<in> visited_cells s'" using assms(1) carve(9) by (simp add: gen_base_def)
    show "set (stack s') \<subseteq> visited_cells s'"
      using assms(1) carve(8,9) by (auto simp: gen_base_def)
    show "\<forall>(p, e) \<in> opened (this_maze s'). p \<in> visited_cells s' \<and> toward p e \<in> visited_cells s'"
      using assms(1) carve(9,10) cV tb by (auto simp: gen_base_def)
  qed
qed

lemma gen_step_total:
  assumes "gen_base s" "stack s \<noteq> []"
  shows "\<exists>s'. gen_step s = Inr s'"
  using assms by (cases rule: gen_step_cases) auto

lemma gen_loop_total:
  "gen_base s \<Longrightarrow> \<exists>s'. gen_loop s = Inr (this_maze s') \<and> gen_reach s s' \<and> stack s' = []"
proof (induction s rule: gen_loop.induct)
  case (1 s)
  show ?case
  proof (cases "stack s = []")
    case True
    then have "gen_loop s = Inr (this_maze s)" by (simp add: gen_loop.simps)
    with True gen_reach.init [of s] show ?thesis by blast
  next
    case False
    from gen_step_total [OF "1.prems" False] obtain s1 where s1: "gen_step s = Inr s1" by blast
    from "1.IH" [OF False s1 gen_base_step [OF "1.prems" False s1]]
    obtain s' where s': "gen_loop s1 = Inr (this_maze s')" "gen_reach s1 s'" "stack s' = []"
      by blast
    have "gen_reach s s1" by (rule gen_reach.step [OF gen_reach.init False s1])
    moreover have "gen_reach s1 t \<Longrightarrow> gen_reach s s1 \<Longrightarrow> gen_reach s t" for t
      by (induction rule: gen_reach.induct) (auto intro: gen_reach.step)
    ultimately have "gen_reach s s'" using s'(2) by blast
    with s' s1 False show ?thesis by (subst gen_loop.simps) auto
  qed
qed

lemma gen_reach_base: "gen_reach s0 s \<Longrightarrow> gen_base s0 \<Longrightarrow> gen_base s"
  by (induction rule: gen_reach.induct) (auto intro: gen_base_step)

lemma mutual_bits_step:
  assumes "gen_base s" "stack s \<noteq> []" "gen_step s = Inr s'" "mutual_bits (this_maze s)"
  shows "mutual_bits (this_maze s')"
  using assms(1,2)
proof (cases rule: gen_step_cases)
  case pop
  with assms have "s' = s\<lparr>stack := butlast (stack s)\<rparr>" by simp
  with assms(4) show ?thesis by simp
next
  case (carve d t)
  with assms have [simp]: "t = s'" by simp
  have tb: "toward (toward (last (stack s)) d) ((d + 2) mod 4) = last (stack s)"
    by (rule toward_back [OF carve(1)])
  have oo: "((d + 2) mod 4 + 2) mod 4 = d" using carve(1) by (auto simp: dirs_def)
  show ?thesis
    using assms(4) carve(10) tb oo by (auto simp: mutual_bits_def)
qed

lemma closed_cells_step:
  assumes "gen_base s" "stack s \<noteq> []" "gen_step s = Inr s'" "closed_cells s"
  shows "closed_cells s'"
  using assms(1,2)
proof (cases rule: gen_step_cases)
  case pop
  with assms have s': "s' = s\<lparr>stack := butlast (stack s)\<rparr>" by simp
  have "p \<in> set (stack s) \<Longrightarrow> p \<notin> set (butlast (stack s)) \<Longrightarrow> p = last (stack s)" for p
    using assms(2) by (metis append_butlast_last_id in_set_conv_decomp_last butlast_snoc
        Un_iff insert_iff list.set(2) set_append empty_iff list.set(1))
  then show ?thesis
    using assms(4) pop(2) unfolding closed_cells_def s' by (auto simp: in_grid_def) 
next
  case (carve d t)
  with assms have [simp]: "t = s'" by simp
  have "in_grid (this_maze s') p = in_grid (this_maze s) p" for p
    using carve(5,6) by (simp add: in_grid_def)
  then show ?thesis
    using assms(4) carve(8,9) unfolding closed_cells_def by auto
qed

lemma canMove_True_iff:
  assumes "wf_maze m" "in_grid m p" "d \<in> dirs"
  shows "canMove m (fst p) (snd p) d = Inr True \<longleftrightarrow> passage m p d \<and> in_grid m (toward p d)"
proof (cases "in_grid m (toward p d)")
  case True
  then show ?thesis
    using canMove_open_neighbour [OF assms(1), of "fst p" "snd p" d] assms(2,3)
    by (simp add: passage_def dirs_def)
next
  case False
  have g: "grid_at m (idx m (fst p) (snd p)) = Some (grid m ! nat (idx m (fst p) (snd p)))"
    using grid_at_in_grid [OF assms(1), of "fst p" "snd p"] assms(2) by simp
  from exits_grid [of m "fst p" "snd p" d] assms(2,3) False
  show ?thesis
    by (auto simp: canMove_def g dirs_def)
qed

lemma link_opened:
  assumes "wf_maze m"
  shows "link m = {(p, toward p d) | p d. (p, d) \<in> opened m \<and> in_grid m (toward p d)}"
  using canMove_True_iff [OF assms]
  unfolding link_def opened_def by auto

lemma link_base:
  assumes "gen_base s"
  shows "link (this_maze s) = (\<lambda>(p, d). (p, toward p d)) ` opened (this_maze s)"
proof -
  have "wf_maze (this_maze s)" using assms by (simp add: gen_base_def)
  moreover have "(p, d) \<in> opened (this_maze s) \<Longrightarrow> in_grid (this_maze s) (toward p d)" for p d
    using assms by (auto simp: gen_base_def visited_cells_def)
  ultimately show ?thesis
    unfolding link_opened [OF \<open>wf_maze (this_maze s)\<close>] by force
qed

lemma link_visited:
  assumes "gen_base s" "(p, q) \<in> link (this_maze s)"
  shows "p \<in> visited_cells s \<and> q \<in> visited_cells s"
  using assms(2) assms(1) unfolding link_base [OF assms(1)] by (auto simp: gen_base_def)

lemma link_carve:
  assumes "gen_base s" "gen_base s'" "d \<in> dirs"
    and "opened (this_maze s') = opened (this_maze s) \<union> {(c, d), (toward c d, (d + 2) mod 4)}"
  shows "link (this_maze s') = link (this_maze s) \<union> {(c, toward c d), (toward c d, c)}"
  unfolding link_base [OF assms(1)] link_base [OF assms(2)] assms(4)
  using toward_back [OF assms(3), of c] by auto

lemma reach_inv_step:
  assumes "gen_base s" "stack s \<noteq> []" "gen_step s = Inr s'" "reach_inv s"
  shows "reach_inv s'"
  using assms(1,2)
proof (cases rule: gen_step_cases)
  case pop
  with assms have "s' = s\<lparr>stack := butlast (stack s)\<rparr>" by simp
  with assms(4) show ?thesis by (simp add: reach_inv_def)
next
  case (carve d t)
  with assms have [simp]: "t = s'" by simp
  have b': "gen_base s'" by (rule gen_base_step [OF assms(1,2,3)])
  have l: "link (this_maze s') = link (this_maze s)
             \<union> {(last (stack s), toward (last (stack s)) d), (toward (last (stack s)) d, last (stack s))}"
    using link_carve [OF assms(1) b' carve(1)] carve(10) by simp
  have cV: "last (stack s) \<in> visited_cells s" using assms(1,2) by (auto simp: gen_base_def)
  have old: "((0, 0), v) \<in> (link (this_maze s'))\<^sup>*" if "v \<in> visited_cells s" for v
  proof -
    have "((0, 0), v) \<in> (link (this_maze s))\<^sup>*" using assms(4) that by (simp add: reach_inv_def)
    moreover have "link (this_maze s) \<subseteq> link (this_maze s')" using l by auto
    ultimately show ?thesis using rtrancl_mono by blast
  qed
  have "(last (stack s), toward (last (stack s)) d) \<in> link (this_maze s')"
    unfolding l by simp
  with old [OF cV] have "((0, 0), toward (last (stack s)) d) \<in> (link (this_maze s'))\<^sup>*"
    by (rule rtrancl_into_rtrancl)
  with old show ?thesis unfolding reach_inv_def carve(9) [simplified] by blast
qed

lemma cyclic_index:
  fixes n i :: nat
  assumes "3 \<le> n" "i < n"
  shows "((i + n - 1) mod n + 1) mod n = i" "(i + n - 1) mod n \<noteq> (i + 1) mod n"
    "(i + n - 1) mod n < n" "(i + 1) mod n < n"
proof -
  have e: "(i + n - 1) mod n = (if i = 0 then n - 1 else i - 1)"
  proof (cases "i = 0")
    case True
    then show ?thesis using assms by simp
  next
    case False
    then have "i + n - 1 = (i - 1) + n" by simp
    then have "(i + n - 1) mod n = (i - 1) mod n" by (simp only: mod_add_self2)
    then show ?thesis using False assms by simp
  qed
  show "((i + n - 1) mod n + 1) mod n = i"
    unfolding e using assms by (cases "i = 0") simp_all
  show "(i + n - 1) mod n \<noteq> (i + 1) mod n"
  proof (cases "i + 1 < n")
    case True
    then show ?thesis unfolding e using assms by (cases "i = 0") simp_all
  next
    case False
    then have "i + 1 = n" using assms by simp
    then show ?thesis unfolding e using assms by auto
  qed
  show "(i + n - 1) mod n < n" "(i + 1) mod n < n" using assms by simp_all
qed

lemma no_cycle_pendant:
  assumes "\<nexists>ps. cycle E ps" "E \<subseteq> V \<times> V" "w \<notin> V"
  shows "\<nexists>ps. cycle (E \<union> {(u, w), (w, u)}) ps"
proof
  assume "\<exists>ps. cycle (E \<union> {(u, w), (w, u)}) ps"
  then obtain ps where c: "cycle (E \<union> {(u, w), (w, u)}) ps" by blast
  define n where "n = length ps"
  from c have n3: "3 \<le> n" and dist: "distinct ps"
    and edge: "\<And>i. i < n \<Longrightarrow> (ps ! i, ps ! ((i + 1) mod n)) \<in> E \<union> {(u, w), (w, u)}"
    unfolding cycle_def n_def by blast+
  have wE: "(w, x) \<notin> E" "(x, w) \<notin> E" for x
    using assms(2,3) by blast+
  have out: "x = u" if "(w, x) \<in> E \<union> {(u, w), (w, u)}" for x
    using that wE(1) [of x] by blast
  have inn: "x = u" if "(x, w) \<in> E \<union> {(u, w), (w, u)}" for x
    using that wE(2) [of x] by blast
  show False
  proof (cases "w \<in> set ps")
    case True
    then obtain i where i: "i < n" "ps ! i = w" unfolding in_set_conv_nth n_def by blast
    note ci = cyclic_index [OF n3 i(1)]
    have "(w, ps ! ((i + 1) mod n)) \<in> E \<union> {(u, w), (w, u)}"
      using edge [OF i(1)] unfolding i(2) .
    then have 1: "ps ! ((i + 1) mod n) = u" by (rule out)
    have "(ps ! ((i + n - 1) mod n), ps ! (((i + n - 1) mod n + 1) mod n)) \<in> E \<union> {(u, w), (w, u)}"
      by (rule edge [OF ci(3)])
    then have "(ps ! ((i + n - 1) mod n), w) \<in> E \<union> {(u, w), (w, u)}"
      unfolding ci(1) i(2) .
    then have 2: "ps ! ((i + n - 1) mod n) = u" by (rule inn)
    have "(i + n - 1) mod n < length ps" "(i + 1) mod n < length ps"
      using ci(3,4) unfolding n_def by blast+
    with dist 1 2 have "(i + n - 1) mod n = (i + 1) mod n"
      by (metis nth_eq_iff_index_eq)
    with ci(2) show False by blast
  next
    case False
    have "(ps ! i, ps ! ((i + 1) mod n)) \<in> E" if "i < n" for i
    proof -
      have "(i + 1) mod n < n" using that by simp
      then have "ps ! i \<in> set ps" "ps ! ((i + 1) mod n) \<in> set ps"
        using that unfolding n_def by (simp_all only: nth_mem)
      with False have "ps ! i \<noteq> w" "ps ! ((i + 1) mod n) \<noteq> w" by metis+
      with edge [OF that] show ?thesis by blast
    qed
    then have "cycle E ps" using n3 dist unfolding cycle_def n_def by blast
    with assms(1) show False by blast
  qed
qed

lemma acyclic_step:
  assumes "gen_base s" "stack s \<noteq> []" "gen_step s = Inr s'"
    and "\<nexists>ps. cycle (link (this_maze s)) ps"
  shows "\<nexists>ps. cycle (link (this_maze s')) ps"
  using assms(1,2)
proof (cases rule: gen_step_cases)
  case pop
  with assms have "s' = s\<lparr>stack := butlast (stack s)\<rparr>" by simp
  with assms(4) show ?thesis by simp
next
  case (carve d t)
  with assms have [simp]: "t = s'" by simp
  have b': "gen_base s'" by (rule gen_base_step [OF assms(1,2,3)])
  have l: "link (this_maze s') = link (this_maze s)
             \<union> {(last (stack s), toward (last (stack s)) d), (toward (last (stack s)) d, last (stack s))}"
    using link_carve [OF assms(1) b' carve(1)] carve(10) by simp
  have "link (this_maze s) \<subseteq> visited_cells s \<times> visited_cells s"
    using link_visited [OF assms(1)] by auto
  from no_cycle_pendant [OF assms(4) this carve(3)] show ?thesis unfolding l .
qed

lemma finite_cells: "finite {p. in_grid m p}"
proof -
  have "{p. in_grid m p} \<subseteq> {0 ..< cols m} \<times> {0 ..< rows m}"
    by (auto simp: in_grid_def)
  then show ?thesis by (rule finite_subset) simp
qed

lemma finite_visited_cells: "finite (visited_cells s)"
  by (rule finite_subset [OF _ finite_cells [of "this_maze s"]]) (auto simp: visited_cells_def)

lemma finite_opened: "finite (opened m)"
proof -
  have "opened m \<subseteq> {p. in_grid m p} \<times> dirs" by (auto simp: opened_def)
  moreover have "finite dirs" by (simp add: dirs_def)
  ultimately show ?thesis using finite_cells finite_subset by blast
qed

lemma finite_mutual_pairs: "finite (mutual_pairs m)"
  by (rule finite_subset [OF _ finite_opened [of m]]) (auto simp: mutual_pairs_def)

lemma mutual_pairs_carve:
  assumes S': "S' = S \<union> {(c, d), (toward c d, (d + 2) mod 4)}"
    and d: "d \<in> dirs"
    and B: "\<And>p e. (p, e) \<in> S \<Longrightarrow> p \<in> V \<and> toward p e \<in> V"
    and n: "toward c d \<notin> V"
  defines "P \<equiv> {(p, e). e \<in> {1, 2} \<and> (p, e) \<in> S \<and> (toward p e, (e + 2) mod 4) \<in> S}"
    and "P' \<equiv> {(p, e). e \<in> {1, 2} \<and> (p, e) \<in> S' \<and> (toward p e, (e + 2) mod 4) \<in> S'}"
    and "new \<equiv> (if d \<in> {1, 2} then (c, d) else (toward c d, (d + 2) mod 4))"
  shows "P' = insert new P \<and> new \<notin> P"
proof -
  have nO: "(toward c d, x) \<notin> S" for x using B n by blast
  have tO: "(p, e) \<in> S \<Longrightarrow> toward p e \<noteq> toward c d" for p e using B n by metis
  have tb: "toward (toward c d) ((d + 2) mod 4) = c" by (rule toward_back [OF d])
  have oo: "((d + 2) mod 4 + 2) mod 4 = d" using d by (auto simp: dirs_def)
  have cn: "toward c d \<noteq> c" by (rule toward_neq [OF d])
  have newP: "new \<notin> P"
  proof (cases "d \<in> {1, 2}")
    case True
    then have "new = (c, d)" by (simp add: new_def)
    moreover have "(toward c d, (d + 2) mod 4) \<notin> S" by (rule nO)
    ultimately show ?thesis by (simp add: P_def)
  next
    case False
    then have "new = (toward c d, (d + 2) mod 4)" by (simp add: new_def)
    then show ?thesis using nO by (simp add: P_def)
  qed
  have sub1: "insert new P \<subseteq> P'"
  proof -
    have "P \<subseteq> P'" unfolding P_def P'_def S' by blast
    moreover have "new \<in> P'"
    proof (cases "d \<in> {1, 2}")
      case True
      then show ?thesis unfolding new_def P'_def S' by simp
    next
      case False
      then have "(d + 2) mod 4 \<in> {1, 2}" using d by (auto simp: dirs_def)
      then show ?thesis using False unfolding new_def P'_def S' by (simp add: tb oo)
    qed
    ultimately show ?thesis by blast
  qed
  have sub2: "P' \<subseteq> insert new P"
  proof
    fix x assume "x \<in> P'"
    then obtain p e where x: "x = (p, e)" and e: "e \<in> {1, 2}" and a: "(p, e) \<in> S'"
      and b: "(toward p e, (e + 2) mod 4) \<in> S'"
      unfolding P'_def by blast
    have ed: "e \<in> dirs" using e by (auto simp: dirs_def)
    from a consider (old) "(p, e) \<in> S" | (c) "(p, e) = (c, d)"
      | (n) "(p, e) = (toward c d, (d + 2) mod 4)"
      unfolding S' by blast
    then show "x \<in> insert new P"
    proof cases
      case old
      from b consider "(toward p e, (e + 2) mod 4) \<in> S" | "(toward p e, (e + 2) mod 4) = (c, d)"
        | "(toward p e, (e + 2) mod 4) = (toward c d, (d + 2) mod 4)"
        unfolding S' by blast
      then show ?thesis
      proof cases
        case 1
        with old e show ?thesis unfolding x P_def by simp
      next
        case 2
        then have "toward (toward p e) ((e + 2) mod 4) = toward c d" by simp
        then have "p = toward c d" using toward_back [OF ed, of p] by simp
        with old nO show ?thesis by blast
      next
        case 3
        with tO [OF old] show ?thesis by simp
      qed
    next
      case c
      with e show ?thesis unfolding x new_def by simp
    next
      case n
      then have "(d + 2) mod 4 \<in> {1, 2}" using e by simp
      then have "d \<notin> {1, 2}" using d by (auto simp: dirs_def)
      with n show ?thesis unfolding x new_def by simp
    qed
  qed
  from sub1 sub2 newP show ?thesis by blast
qed

lemma count_inv_step:
  assumes "gen_base s" "stack s \<noteq> []" "gen_step s = Inr s'" "count_inv s"
  shows "count_inv s'"
  using assms(1,2)
proof (cases rule: gen_step_cases)
  case pop
  with assms have "s' = s\<lparr>stack := butlast (stack s)\<rparr>" by simp
  with assms(4) show ?thesis by (simp add: count_inv_def)
next
  case (carve d t)
  with assms have ts: "t = s'" by simp
  note op = carve(10) [unfolded ts] and vs = carve(9) [unfolded ts]
  have B: "\<And>p e. (p, e) \<in> opened (this_maze s) \<Longrightarrow>
      p \<in> visited_cells s \<and> toward p e \<in> visited_cells s"
    using assms(1) by (auto simp: gen_base_def)
  define new where "new = (if d \<in> {1, 2} then (last (stack s), d)
                            else (toward (last (stack s)) d, (d + 2) mod 4))"
  have "mutual_pairs (this_maze s') = insert new (mutual_pairs (this_maze s))
        \<and> new \<notin> mutual_pairs (this_maze s)"
    unfolding mutual_pairs_def new_def
    by (rule mutual_pairs_carve [OF op carve(1) B carve(3)])
  then have "card (mutual_pairs (this_maze s')) = card (mutual_pairs (this_maze s)) + 1"
    using finite_mutual_pairs [of "this_maze s"] by simp
  moreover have "card (visited_cells s') = card (visited_cells s) + 1"
    using carve(3) vs finite_visited_cells [of s] by simp
  ultimately show ?thesis using assms(4) by (simp add: count_inv_def)
qed

lemma gen_inv_step:
  assumes "gen_inv s" "stack s \<noteq> []" "gen_step s = Inr s'"
  shows "gen_inv s'"
proof -
  from assms(1) have b: "gen_base s" by (simp add: gen_inv_def)
  note st = b assms(2,3)
  show ?thesis
    unfolding gen_inv_def
  proof (intro conjI)
    show "gen_base s'" by (rule gen_base_step [OF st])
    show "mutual_bits (this_maze s')"
      using assms(1) by (intro mutual_bits_step [OF st]) (simp add: gen_inv_def)
    show "closed_cells s'"
      using assms(1) by (intro closed_cells_step [OF st]) (simp add: gen_inv_def)
    show "reach_inv s'"
      using assms(1) by (intro reach_inv_step [OF st]) (simp add: gen_inv_def)
    show "\<nexists>ps. cycle (link (this_maze s')) ps"
      using assms(1) by (intro acyclic_step [OF st]) (simp add: gen_inv_def)
    show "count_inv s'"
      using assms(1) by (intro count_inv_step [OF st]) (simp add: gen_inv_def)
  qed
qed

lemma gen_reach_inv: "gen_reach s0 s \<Longrightarrow> gen_inv s0 \<Longrightarrow> gen_inv s"
  by (induction rule: gen_reach.induct) (auto intro: gen_inv_step)

lemma gen_step_dims:
  assumes "gen_base s" "stack s \<noteq> []" "gen_step s = Inr s'"
  shows "cols (this_maze s') = cols (this_maze s) \<and> rows (this_maze s') = rows (this_maze s)"
  using assms(1,2)
proof (cases rule: gen_step_cases)
  case pop
  with assms have "s' = s\<lparr>stack := butlast (stack s)\<rparr>" by simp
  then show ?thesis by simp
next
  case (carve d t)
  with assms have "t = s'" by simp
  with carve(5,6) show ?thesis by simp
qed

lemma gen_reach_dims:
  "gen_reach s0 s \<Longrightarrow> gen_base s0 \<Longrightarrow>
     cols (this_maze s) = cols (this_maze s0) \<and> rows (this_maze s) = rows (this_maze s0)"
proof (induction rule: gen_reach.induct)
  case init
  then show ?case by simp
next
  case (step s s')
  with gen_step_dims [OF gen_reach_base [OF step(1) step(5)] step(2,3)] show ?case by simp
qed

lemma Maze_fields:
  assumes "Maze c r = Inr m"
  shows "cols m = c" "rows m = r" "length (grid m) = nat (c * r)"
    "\<And>i. i < length (grid m) \<Longrightarrow> passages (grid m ! i) = 0"
proof -
  from assms have m: "m = \<lparr>cols = c, rows = r,
                grid = map (\<lambda>i. new_Cell (i mod \<bar>c\<bar>) (i div c)) [0 .. c * r - 1],
                start = (0, 0), goal = (c - 1, r - 1)\<rparr>"
    by (simp add: Maze_def split: if_splits)
  show "cols m = c" "rows m = r" "length (grid m) = nat (c * r)" by (simp_all add: m)
  show "\<And>i. i < length (grid m) \<Longrightarrow> passages (grid m ! i) = 0"
    by (simp add: m new_Cell_def)
qed

lemma Maze_total: "0 \<le> c \<Longrightarrow> 0 \<le> r \<Longrightarrow> \<exists>m. Maze c r = Inr m"
  using mult_nonneg_nonneg [of c r] by (simp add: Maze_def not_less)

lemma opened_Maze:
  assumes "Maze c r = Inr m" "0 \<le> c" "0 \<le> r"
  shows "opened m = {}"
proof -
  have wf: "wf_maze m" by (rule wf_Maze [OF assms])
  have "\<not> passage m p d" if "in_grid m p" for p d
  proof -
    have "nat (idx m (fst p) (snd p)) < length (grid m)"
      using idx_in_range [OF wf, of "fst p" "snd p"] that by auto
    then have "passages (grid m ! nat (idx m (fst p) (snd p))) = 0"
      by (rule Maze_fields(4) [OF assms(1)])
    then show ?thesis by (simp add: passage_def isOpen_def)
  qed
  then show ?thesis by (auto simp: opened_def)
qed

lemma visited_cells_init:
  assumes "wf_maze m" "1 \<le> cols m" "1 \<le> rows m"
  shows "visited_cells (gen_init m seed) = {(0, 0)}"
proof -
  have g: "in_grid m (0, 0)" using assms by (simp add: in_grid_def)
  have e: "p = (0, 0)" if "in_grid m p" "idx m (fst p) (snd p) = idx m 0 0" for p
    using idx_inj [OF that(1) g] that(2) by simp
  show ?thesis
  proof (rule set_eqI)
    fix p
    have "p \<in> visited_cells (gen_init m seed)
          \<longleftrightarrow> in_grid m p \<and> idx m (fst p) (snd p) = idx m 0 0"
      by (simp add: visited_cells_def gen_init_def)
    also have "\<dots> \<longleftrightarrow> p = (0, 0)" using e [of p] g by fastforce
    finally show "p \<in> visited_cells (gen_init m seed) \<longleftrightarrow> p \<in> {(0, 0)}" by simp
  qed
qed

lemma gen_inv_init:
  assumes "Maze c r = Inr m" "1 \<le> c" "1 \<le> r"
  shows "gen_inv (gen_init m seed)"
proof -
  have c0: "0 \<le> c" "0 \<le> r" using assms by simp_all
  have wf: "wf_maze m" by (rule wf_Maze [OF assms(1) c0])
  have dims: "1 \<le> cols m" "1 \<le> rows m" using assms Maze_fields(1,2) [OF assms(1)] by simp_all
  have V: "visited_cells (gen_init m seed) = {(0, 0)}" by (rule visited_cells_init [OF wf dims])
  have O: "opened m = {}" by (rule opened_Maze [OF assms(1) c0])
  have [simp]: "this_maze (gen_init m seed) = m" "stack (gen_init m seed) = [(0, 0)]"
    by (simp_all add: gen_init_def)
  have b: "gen_base (gen_init m seed)"
    unfolding gen_base_def by (simp add: wf V O)
  have l: "link m = {}" unfolding link_opened [OF wf] O by simp
  have nc: "\<nexists>ps. cycle (link m) ps"
  proof
    assume "\<exists>ps. cycle (link m) ps"
    then obtain ps where "cycle (link m) ps" by blast
    then have "3 \<le> length ps"
      and "\<forall>i < length ps. (ps ! i, ps ! ((i + 1) mod length ps)) \<in> link m"
      unfolding cycle_def by blast+
    then have "(ps ! 0, ps ! ((0 + 1) mod length ps)) \<in> link m" by force
    then show False unfolding l by simp
  qed
  have mp: "mutual_pairs m = {}" unfolding mutual_pairs_def O by simp
  show ?thesis
    unfolding gen_inv_def
  proof (intro conjI)
    show "gen_base (gen_init m seed)" by (rule b)
    show "mutual_bits (this_maze (gen_init m seed))" by (simp add: mutual_bits_def O)
    show "closed_cells (gen_init m seed)" unfolding closed_cells_def V by simp
    show "reach_inv (gen_init m seed)" unfolding reach_inv_def V by simp
    show "\<nexists>ps. cycle (link (this_maze (gen_init m seed))) ps" using nc by simp
    show "count_inv (gen_init m seed)" unfolding count_inv_def V by (simp add: mp)
  qed
qed

lemma closed_all:
  assumes "gen_base s" "closed_cells s" "stack s = []"
  shows "visited_cells s = {p. in_grid (this_maze s) p}"
proof -
  define m where "m = this_maze s"
  define V where "V = visited_cells s"
  have z: "(0, 0) \<in> V" using assms(1) by (simp add: gen_base_def V_def)
  have cl: "toward p d \<in> V" if "p \<in> V" "d \<in> dirs" "in_grid m (toward p d)" for p d
    using assms(2,3) that unfolding closed_cells_def V_def m_def by simp
  have row: "(int k, 0) \<in> V" if "int k < cols m" for k
    using that
  proof (induction k)
    case 0
    then show ?case using z by simp
  next
    case (Suc k)
    then have "(int k, 0) \<in> V" by simp
    moreover have "in_grid m (toward (int k, 0) 1)"
      using Suc.prems z unfolding V_def visited_cells_def m_def
      by (simp add: toward_def in_grid_def)
    ultimately have "toward (int k, 0) 1 \<in> V" by (intro cl) (simp_all add: dirs_def)
    then show ?case by (simp add: toward_def add.commute)
  qed
  have col: "(int k, int j) \<in> V" if "int k < cols m" "int j < rows m" for k j
    using that(2)
  proof (induction j)
    case 0
    then show ?case using row [OF that(1)] by simp
  next
    case (Suc j)
    then have "(int k, int j) \<in> V" by simp
    moreover have "in_grid m (toward (int k, int j) 2)"
      using Suc.prems that(1) by (simp add: toward_def in_grid_def)
    ultimately have "toward (int k, int j) 2 \<in> V" by (intro cl) (simp_all add: dirs_def)
    then show ?case by (simp add: toward_def add.commute)
  qed
  have "p \<in> V" if "in_grid m p" for p
  proof -
    from that have "0 \<le> fst p" "0 \<le> snd p" "fst p < cols m" "snd p < rows m"
      by (simp_all add: in_grid_def)
    then have "(int (nat (fst p)), int (nat (snd p))) \<in> V" by (intro col) simp_all
    then show ?thesis using \<open>0 \<le> fst p\<close> \<open>0 \<le> snd p\<close> by simp
  qed
  moreover have "in_grid m p" if "p \<in> V" for p
    using that by (simp add: V_def visited_cells_def m_def)
  ultimately show ?thesis unfolding V_def m_def by blast
qed

lemma card_cells:
  assumes "0 \<le> cols m" "0 \<le> rows m"
  shows "int (card {p. in_grid m p}) = cols m * rows m"
proof -
  have "{p. in_grid m p} = {0 ..< cols m} \<times> {0 ..< rows m}"
    by (auto simp: in_grid_def)
  then show ?thesis using assms by (simp add: card_cartesian_product)
qed

lemma set_all_cells: "set (all_cells m) = {p. in_grid m p}"
  by (auto simp: all_cells_def in_grid_def)

lemma distinct_all_cells: "distinct (all_cells m)"
  by (simp add: all_cells_def distinct_product)

lemma set_passage_pairs: "set (passage_pairs m) = mutual_pairs m"
proof -
  have "mutually_open m p d \<longleftrightarrow> (p, d) \<in> opened m \<and> (toward p d, (d + 2) mod 4) \<in> opened m"
    if "d \<in> {1, 2}" for p d
    using that by (auto simp: mutually_open_def opened_def dirs_def)
  then show ?thesis
    unfolding passage_pairs_def mutual_pairs_def
    by (auto simp: set_all_cells opened_def)
qed

lemma length_passage_pairs: "length (passage_pairs m) = card (mutual_pairs m)"
proof -
  have "distinct (passage_pairs m)"
    by (simp add: passage_pairs_def distinct_product distinct_all_cells)
  then show ?thesis using set_passage_pairs [of m] distinct_card by fastforce
qed

lemma mutual_bits_mutual:
  assumes "mutual_bits m"
  shows "mutual m"
  unfolding mutual_def
proof (intro ballI impI)
  fix p d assume p: "p \<in> set (all_cells m)" and d: "d \<in> dirs"
    and o: "passage m p d \<and> in_grid m (toward p d)"
  then have "(p, d) \<in> opened m" by (simp add: opened_def set_all_cells)
  with assms have "(toward p d, (d + 2) mod 4) \<in> opened m" by (auto simp: mutual_bits_def)
  then show "passage m (toward p d) ((d + 2) mod 4)" by (simp add: opened_def)
qed

lemma goal_update_simps [simp]:
  "link (m\<lparr>goal := g\<rparr>) = link m" "passage_pairs (m\<lparr>goal := g\<rparr>) = passage_pairs m"
  "mutual (m\<lparr>goal := g\<rparr>) = mutual m" "all_cells (m\<lparr>goal := g\<rparr>) = all_cells m"
  "in_grid (m\<lparr>goal := g\<rparr>) p = in_grid m p" "passage (m\<lparr>goal := g\<rparr>) p d = passage m p d"
  "wf_maze (m\<lparr>goal := g\<rparr>) = wf_maze m"
  by (simp_all add: link_def passage_pairs_def mutual_def all_cells_def in_grid_def passage_def
      mutually_open_def idx_def canMove_def grid_at_def wf_maze_def)

lemma gen_loop_final:
  assumes "Maze c r = Inr m0" "1 \<le> c" "1 \<le> r"
  shows "\<exists>s. gen_loop (gen_init m0 sd) = Inr (this_maze s) \<and> gen_reach (gen_init m0 sd) s
             \<and> stack s = [] \<and> gen_inv s
             \<and> cols (this_maze s) = c \<and> rows (this_maze s) = r
             \<and> visited_cells s = {p. in_grid (this_maze s) p}"
proof -
  have i: "gen_inv (gen_init m0 sd)" by (rule gen_inv_init [OF assms])
  then have b: "gen_base (gen_init m0 sd)" by (simp add: gen_inv_def)
  from gen_loop_total [OF b] obtain s where s: "gen_loop (gen_init m0 sd) = Inr (this_maze s)"
      "gen_reach (gen_init m0 sd) s" "stack s = []"
    by blast
  have inv: "gen_inv s" by (rule gen_reach_inv [OF s(2) i])
  have "cols (this_maze s) = c \<and> rows (this_maze s) = r"
    using gen_reach_dims [OF s(2) b] Maze_fields(1,2) [OF assms(1)] by (simp add: gen_init_def)
  moreover have "visited_cells s = {p. in_grid (this_maze s) p}"
    using inv s(3) by (intro closed_all) (simp_all add: gen_inv_def)
  ultimately show ?thesis using s inv by blast
qed

lemma new_maze_2x2_42:
  "new_maze 2 2 (Some 42) now = Inr \<lparr>cols = 2, rows = 2,
     grid = [\<lparr>cell_x = 0, cell_y = 0, passages = 4\<rparr>, \<lparr>cell_x = 1, cell_y = 0, passages = 4\<rparr>,
             \<lparr>cell_x = 0, cell_y = 1, passages = 3\<rparr>, \<lparr>cell_x = 1, cell_y = 1, passages = 9\<rparr>],
     start = (0, 0), goal = (1, 1)\<rparr>"
  by (simp add: new_maze_def Maze_def upto.simps generate_def gen_init_def gen_loop.simps
      gen_step_def Let_def neighbors_def idx_def grid_at_def open_at_def Cell_open_def new_Cell_def
      dir_bit_def mulberry32_def pick_def)

text \<open>
  C2. For all \<open>cols \<ge> 1\<close>, \<open>rows \<ge> 1\<close> and any seed (given, or taken from the clock),
  \<open>new Maze(cols, rows)\<close> followed by \<open>generate\<close> returns without an exception (the loop
  is a total function), and the maze is perfect: it has exactly \<open>cols * rows - 1\<close> passage
  pairs, every cell is reachable from \<open>(0, 0)\<close> through open passages, and no cycle of open
  passages exists. No passage leads out of the grid, so that the 1 x 1 maze has no passage
  at all.
\<close>

theorem generate_perfect_maze:
  assumes "1 \<le> c" "1 \<le> r"
  shows "\<exists>m. new_maze c r seed now = Inr m \<and> cols m = c \<and> rows m = r \<and> wf_maze m
           \<and> int (length (passage_pairs m)) = c * r - 1
           \<and> (\<forall>p \<in> set (all_cells m). ((0, 0), p) \<in> (link m)\<^sup>*)
           \<and> (\<nexists>ps. cycle (link m) ps)
           \<and> (\<forall>p \<in> set (all_cells m). \<forall>d \<in> dirs. passage m p d \<longrightarrow> in_grid m (toward p d))"
proof -
  obtain m0 where m0: "Maze c r = Inr m0" using Maze_total [of c r] assms by auto
  define sd where "sd = (case seed of None \<Rightarrow> now | Some sd \<Rightarrow> sd)"
  from gen_loop_final [OF m0 assms, of sd]
  obtain s where s: "gen_loop (gen_init m0 sd) = Inr (this_maze s)" "stack s = []" "gen_inv s"
      "cols (this_maze s) = c" "rows (this_maze s) = r"
      "visited_cells s = {p. in_grid (this_maze s) p}"
    by blast
  define m where "m = (this_maze s)\<lparr>goal := (cols (this_maze s) - 1, rows (this_maze s) - 1)\<rparr>"
  have nm: "new_maze c r seed now = Inr m"
    by (simp add: new_maze_def m0 generate_def sd_def [symmetric] s(1) m_def)
  from s(3) have b: "gen_base s" and r: "reach_inv s" and a: "\<nexists>ps. cycle (link (this_maze s)) ps"
    and n: "count_inv s"
    by (simp_all add: gen_inv_def)
  have wf: "wf_maze (this_maze s)" using b by (simp add: gen_base_def)
  have "int (card (visited_cells s)) = c * r"
    unfolding s(6) using card_cells [of "this_maze s"] assms s(4,5) by simp
  then have cnt: "int (length (passage_pairs (this_maze s))) = c * r - 1"
    using n by (simp add: count_inv_def length_passage_pairs)
  have reach: "\<forall>p \<in> set (all_cells (this_maze s)). ((0, 0), p) \<in> (link (this_maze s))\<^sup>*"
    using r unfolding reach_inv_def s(6) set_all_cells by blast
  have conf: "\<forall>p \<in> set (all_cells (this_maze s)). \<forall>d \<in> dirs.
      passage (this_maze s) p d \<longrightarrow> in_grid (this_maze s) (toward p d)"
  proof (intro ballI impI)
    fix p d assume "p \<in> set (all_cells (this_maze s))" "d \<in> dirs" "passage (this_maze s) p d"
    then have "(p, d) \<in> opened (this_maze s)" by (simp add: opened_def set_all_cells)
    with b have "toward p d \<in> visited_cells s" by (auto simp: gen_base_def)
    then show "in_grid (this_maze s) (toward p d)" by (simp add: visited_cells_def)
  qed
  show ?thesis
    using nm s(4,5) wf cnt reach a conf unfolding m_def
    by (intro exI [of _ "(this_maze s)\<lparr>goal := (cols (this_maze s) - 1, rows (this_maze s) - 1)\<rparr>"])
       simp
qed

theorem generate_perfect_maze_witness:
  "(1::int) \<le> 5 \<and> (\<exists>m. new_maze 5 5 (Some 42) 0 = Inr m \<and> cols m = 5 \<and> rows m = 5
      \<and> length (passage_pairs m) = 24
      \<and> (\<forall>p \<in> set (all_cells m). ((0, 0), p) \<in> (link m)\<^sup>*)
      \<and> (\<nexists>ps. cycle (link m) ps))"
  using generate_perfect_maze [of 5 5 "Some 42" 0] by auto

text \<open>
  C7. In the maze that \<open>generate\<close> returns, and in the maze of every state the loop passes
  through (so after every carving step), an open passage bit toward a neighbour in the grid
  has the opposite bit \<open>(d + 2) mod 4\<close> open in that neighbour.
\<close>

theorem generate_mutual:
  assumes "1 \<le> c" "1 \<le> r"
  shows "\<exists>m0 m. Maze c r = Inr m0 \<and> new_maze c r seed now = Inr m \<and> mutual m
           \<and> (\<forall>s. gen_reach (gen_init m0 (case seed of None \<Rightarrow> now | Some sd \<Rightarrow> sd)) s
                  \<longrightarrow> mutual (this_maze s))"
proof -
  obtain m0 where m0: "Maze c r = Inr m0" using Maze_total [of c r] assms by auto
  define sd where "sd = (case seed of None \<Rightarrow> now | Some sd \<Rightarrow> sd)"
  have i: "gen_inv (gen_init m0 sd)" by (rule gen_inv_init [OF m0 assms])
  have every: "mutual (this_maze s)" if "gen_reach (gen_init m0 sd) s" for s
    using gen_reach_inv [OF that i] by (simp add: gen_inv_def mutual_bits_mutual)
  from gen_loop_final [OF m0 assms, of sd]
  obtain s where s: "gen_loop (gen_init m0 sd) = Inr (this_maze s)" "gen_reach (gen_init m0 sd) s"
    by blast
  have "new_maze c r seed now
          = Inr ((this_maze s)\<lparr>goal := (cols (this_maze s) - 1, rows (this_maze s) - 1)\<rparr>)"
    by (simp add: new_maze_def m0 generate_def sd_def [symmetric] s(1))
  moreover have "mutual ((this_maze s)\<lparr>goal := (cols (this_maze s) - 1, rows (this_maze s) - 1)\<rparr>)"
    using every [OF s(2)] by simp
  ultimately show ?thesis using m0 every unfolding sd_def by blast
qed

theorem generate_mutual_witness:
  "(1::int) \<le> 2
   \<and> mutual \<lparr>cols = 2, rows = 2,
       grid = [\<lparr>cell_x = 0, cell_y = 0, passages = 4\<rparr>, \<lparr>cell_x = 1, cell_y = 0, passages = 4\<rparr>,
               \<lparr>cell_x = 0, cell_y = 1, passages = 3\<rparr>, \<lparr>cell_x = 1, cell_y = 1, passages = 9\<rparr>],
       start = (0, 0), goal = (1, 1)\<rparr>"
  using generate_mutual [of 2 2 "Some 42" 0] by (auto simp: new_maze_2x2_42)

text \<open>
  C8. The maze that \<open>new Maze(cols, rows)\<close> and \<open>generate(seed)\<close> build is a function of
  \<open>cols\<close>, \<open>rows\<close> and the seed alone: it does not depend on the clock, which is read only
  when no seed is given, and seeds that agree modulo \<open>2^32\<close> give the same maze.
\<close>

theorem generate_deterministic:
  "new_maze c r (Some seed) now1 = new_maze c r (Some seed) now2
   \<and> new_maze c r (Some (seed + k * 2 ^ 32)) now1 = new_maze c r (Some seed) now2"
proof -
  have "take_bit 32 (seed + k * 2 ^ 32) = take_bit 32 seed"
    by (simp add: take_bit_eq_mod)
  then have "take_bit LENGTH(32) (seed + k * 2 ^ 32) = take_bit LENGTH(32) seed"
    by simp
  then have w: "(word_of_int (seed + k * 2 ^ 32) :: 32 word) = word_of_int seed"
    by (simp only: word_of_int_eq_iff)
  have i: "gen_init m (seed + k * 2 ^ 32) = gen_init m seed" for m
    by (simp only: gen_init_def w)
  have g: "generate m (Some (seed + k * 2 ^ 32)) now1 = generate m (Some seed) now2"
      "generate m (Some seed) now1 = generate m (Some seed) now2" for m
    by (simp_all only: generate_def option.case i)
  show ?thesis by (simp only: new_maze_def g)
qed

section \<open>Properties of the frame loop and the goal event\<close>

lemma filter_weak_cong: "xs = ys \<Longrightarrow> filter P xs = filter P ys"
  by simp

lemma hypot_0 [simp]: "hypot x 0 = \<bar>x\<bar>" "hypot 0 y = \<bar>y\<bar>"
  by (simp_all add: hypot_def)

subsection \<open>The flag of main.js, and what every event keeps\<close>

lemma drawAll_loop_fields:
  assumes "drawAll s = Inr s'"
  shows "won s' = won s" "goal_count s' = goal_count s" "running s' = running s"
  using assms by (auto simp: drawAll_def split: sum.splits)

lemma maybeHurt_loop_fields:
  assumes "maybeHurt now s = Inr s'"
  shows "won s' = won s" "goal_count s' = goal_count s"
  using assms by (auto simp: maybeHurt_def hurt_def drawAll_def split: if_splits sum.splits)

lemma attemptMove_loop_fields:
  assumes "attemptMove s now cx cy dx dy = Inr (p, s')"
  shows "won s' = won s" "goal_count s' = goal_count s"
  using assms maybeHurt_loop_fields
  by (auto simp: attemptMove_def split: sum.splits bool.splits)

lemma drag_move_fields:
  assumes "drag_move speed now s = Inr s'"
  shows "won s' = won s \<and> goal_count s' = goal_count s"
proof (cases "s' = s")
  case True
  then show ?thesis by simp
next
  case False
  with assms obtain cx cy dx dy res s1 where
    a: "attemptMove s now cx cy dx dy = Inr (res, s1)"
    and s': "s' = s1\<lparr>player_x := fst res, player_y := snd res\<rparr>"
    by (auto simp: drag_move_def Let_def
        split: bool.splits option.splits if_splits sum.splits prod.splits)
  from attemptMove_loop_fields [OF a] show ?thesis by (simp add: s')
qed

lemma update_cell_fields:
  "won (update_cell s) = won s" "goal_count (update_cell s) = goal_count s"
  by (simp_all add: update_cell_def split: cellref.splits)

lemma tick_goal:
  assumes "tick now s = Inr s'"
  shows "goal_count s' = goal_count s + (if won s' \<and> \<not> won s then 1 else 0)" "won s \<longrightarrow> won s'"
proof -
  show "goal_count s' = goal_count s + (if won s' \<and> \<not> won s then 1 else 0)"
  proof (cases "running s")
    case False
    with assms show ?thesis by (simp add: tick_def)
  next
    case True
    with assms obtain s1 s2 where
      s1: "drag_move (max 3 (of_int \<lfloor>cellSize (the_metrics s) * 0.32\<rfloor>)) now s = Inr s1"
      and s2: "drawAll (update_cell s1) = Inr s2"
      and s': "s' = (if \<not> won s2 \<and> player_cell s2 = Some (goal (the_maze s2))
                      then onGoal (s2\<lparr>won := True\<rparr>) else s2)"
      by (auto simp: tick_def split: sum.splits)
    have "won s2 = won s" "goal_count s2 = goal_count s"
      using drag_move_fields [OF s1] drawAll_loop_fields(1,2) [OF s2] update_cell_fields [of s1]
      by simp_all
    then show ?thesis by (simp add: s' onGoal_def)
  qed
  show "won s \<longrightarrow> won s'"
  proof (cases "running s")
    case False
    with assms show ?thesis by (simp add: tick_def)
  next
    case True
    with assms obtain s1 s2 where
      s1: "drag_move (max 3 (of_int \<lfloor>cellSize (the_metrics s) * 0.32\<rfloor>)) now s = Inr s1"
      and s2: "drawAll (update_cell s1) = Inr s2"
      and s': "s' = (if \<not> won s2 \<and> player_cell s2 = Some (goal (the_maze s2))
                      then onGoal (s2\<lparr>won := True\<rparr>) else s2)"
      by (auto simp: tick_def split: sum.splits)
    have "won s2 = won s"
      using drag_move_fields [OF s1] drawAll_loop_fields(1) [OF s2] update_cell_fields [of s1]
      by simp
    then show ?thesis by (simp add: s' onGoal_def)
  qed
qed


lemma drawAll_E:
  assumes "drawAll s = Inr s'"
  obtains mt hf where "s' = s\<lparr>the_metrics := mt, hurtFlash := hf\<rparr>"
  using assms by (auto simp: drawAll_def split: sum.splits)

lemma jump_frame_E:
  assumes "jump_frame i s = Inr s'"
  obtains y mt hf js where "s' = s\<lparr>the_metrics := mt, player_y := y, hurtFlash := hf, jumps := js\<rparr>"
proof (cases "i < length (jumps s)")
  case False
  with assms have "s' = s\<lparr>the_metrics := the_metrics s, player_y := player_y s,
      hurtFlash := hurtFlash s, jumps := jumps s\<rparr>"
    by (simp add: jump_frame_def)
  then show ?thesis by (rule that)
next
  case True
  define y where "y = snd (jumps s ! i) - sin (real (fst (jumps s ! i) + 1) / 22 * pi) * (player_radius s * 0.8)"
  from assms True obtain s1 js where s1: "drawAll (s\<lparr>player_y := y\<rparr>) = Inr s1"
    and s': "s' = s1\<lparr>jumps := js\<rparr>"
    by (auto simp: jump_frame_def Let_def y_def split: sum.splits)
  from s1 obtain mt hf where "s1 = s\<lparr>player_y := y, the_metrics := mt, hurtFlash := hf\<rparr>"
    by (rule drawAll_E)
  then have "s' = s\<lparr>the_metrics := mt, player_y := y, hurtFlash := hf, jumps := js\<rparr>"
    by (simp add: s')
  then show ?thesis by (rule that)
qed

lemma jump_frame_loop_fields:
  assumes "jump_frame i s = Inr s'"
  shows "won s' = won s" "goal_count s' = goal_count s"
proof -
  from assms obtain y mt hf js
    where "s' = s\<lparr>the_metrics := mt, player_y := y, hurtFlash := hf, jumps := js\<rparr>"
    by (rule jump_frame_E)
  then show "won s' = won s" "goal_count s' = goal_count s" by simp_all
qed

lemma loop_event_goal:
  assumes "loop_event e s = Inr s'" "\<not> is_StartGame e"
  shows "goal_count s' = goal_count s + (if won s' \<and> \<not> won s then 1 else 0) \<and> (won s \<longrightarrow> won s')"
proof (cases e)
  case (Frame now)
  with assms tick_goal [of now s s'] show ?thesis by simp
next
  case (JumpFrame i)
  with assms jump_frame_loop_fields [of i s s'] show ?thesis by simp
next
  case (Resize w h)
  with assms drawAll_loop_fields(1,2) [of "s\<lparr>canvasW := w, canvasH := h\<rparr>" s'] show ?thesis
    by (auto simp: fitCanvas_def split: if_splits)
qed (use assms in \<open>auto simp: onStart_def onMove_def onEnd_def split: if_splits\<close>)

lemma loop_run_goal:
  assumes "loop_run es s = Inr s'" "\<forall>e \<in> set es. \<not> is_StartGame e"
  shows "goal_count s' = goal_count s + (if won s' \<and> \<not> won s then 1 else 0) \<and> (won s \<longrightarrow> won s')"
  using assms
proof (induction es arbitrary: s)
  case Nil
  then show ?case by simp
next
  case (Cons e es)
  from Cons.prems(1) obtain s1 where s1: "loop_event e s = Inr s1" "loop_run es s1 = Inr s'"
    by (auto split: sum.splits)
  have e: "\<not> is_StartGame e" and es: "\<forall>e \<in> set es. \<not> is_StartGame e"
    using Cons.prems(2) by simp_all
  note a = loop_event_goal [OF s1(1) e] and b = Cons.IH [OF s1(2) es]
  show ?case
  proof (cases "won s")
    case True
    with a b show ?thesis by simp
  next
    case False
    with a b show ?thesis by (cases "won s1") simp_all
  qed
qed


lemma new_maze_level:
  assumes "1 \<le> c" "1 \<le> r"
  shows "\<exists>m. new_maze c r seed now = Inr m \<and> cols m = c \<and> rows m = r \<and> wf_maze m"
proof -
  obtain m0 where m0: "Maze c r = Inr m0" using Maze_total [of c r] assms by auto
  define sd where "sd = (case seed of None \<Rightarrow> now | Some sd \<Rightarrow> sd)"
  from gen_loop_final [OF m0 assms, of sd]
  obtain s where s: "gen_loop (gen_init m0 sd) = Inr (this_maze s)" "gen_inv s"
      "cols (this_maze s) = c" "rows (this_maze s) = r"
    by blast
  have "new_maze c r seed now
          = Inr ((this_maze s)\<lparr>goal := (cols (this_maze s) - 1, rows (this_maze s) - 1)\<rparr>)"
    by (simp add: new_maze_def m0 generate_def sd_def [symmetric] s(1))
  moreover have "wf_maze (this_maze s)" using s(2) by (simp add: gen_inv_def gen_base_def)
  ultimately show ?thesis using s(3,4) by simp
qed

lemma difficultyForAge_pos: "1 \<le> difficultyForAge a"
  by (simp add: difficultyForAge_def)

lemma drawAll_level:
  assumes "drawAll s = Inr s'"
  shows "maze_set s' = maze_set s" "the_maze s' = the_maze s" "synced s'"
  using assms by (auto simp: drawAll_def synced_def split: sum.splits)

lemma fitCanvas_level:
  assumes "fitCanvas w h s = Inr s'" "maze_set s"
  shows "maze_set s'" "the_maze s' = the_maze s" "synced s'"
  using assms drawAll_level [of "s\<lparr>canvasW := w, canvasH := h\<rparr>" s']
  by (simp_all add: fitCanvas_def)

lemma maybeHurt_level:
  assumes "maybeHurt now s = Inr s'"
  shows "maze_set s' = maze_set s" "the_maze s' = the_maze s" "synced s \<Longrightarrow> synced s'"
proof -
  show "maze_set s' = maze_set s" "the_maze s' = the_maze s"
    using assms by (auto simp: maybeHurt_def hurt_def drawAll_def split: if_splits sum.splits)
  show "synced s \<Longrightarrow> synced s'" by (rule maybeHurt_synced [OF assms])
qed

lemma attemptMove_level:
  assumes "attemptMove s now cx cy dx dy = Inr (p, s')"
  shows "maze_set s' = maze_set s" "the_maze s' = the_maze s" "synced s \<Longrightarrow> synced s'"
proof -
  have "s' = s \<or> maybeHurt now s = Inr s'"
    using assms by (auto simp: attemptMove_def split: sum.splits bool.splits)
  then show "maze_set s' = maze_set s" "the_maze s' = the_maze s" "synced s \<Longrightarrow> synced s'"
    using maybeHurt_level [of now s s'] by auto
qed

lemma synced_player [simp]:
  "synced (s\<lparr>player_x := x\<rparr>) = synced s" "synced (s\<lparr>player_y := y\<rparr>) = synced s"
  "synced (s\<lparr>player_cell := c\<rparr>) = synced s" "synced (s\<lparr>jumps := js\<rparr>) = synced s"
  "synced (s\<lparr>dragging := d\<rparr>) = synced s" "synced (s\<lparr>lastTouch := t\<rparr>) = synced s"
  "synced (s\<lparr>coins := k\<rparr>) = synced s" "synced (s\<lparr>goal_count := g\<rparr>) = synced s"
  by (simp_all add: synced_def)

lemma drag_move_level:
  assumes "drag_move speed now s = Inr s'"
  shows "maze_set s' = maze_set s \<and> the_maze s' = the_maze s \<and> (synced s \<longrightarrow> synced s')"
proof (cases "s' = s")
  case True
  then show ?thesis by simp
next
  case False
  with assms obtain cx cy dx dy res s1 where
    a: "attemptMove s now cx cy dx dy = Inr (res, s1)"
    and s': "s' = s1\<lparr>player_x := fst res, player_y := snd res\<rparr>"
    by (auto simp: drag_move_def Let_def
        split: bool.splits option.splits if_splits sum.splits prod.splits)
  from attemptMove_level [OF a] show ?thesis by (simp add: s')
qed

lemma update_cell_level:
  "maze_set (update_cell s) = maze_set s" "the_maze (update_cell s) = the_maze s"
  "synced (update_cell s) = synced s"
  by (simp_all add: update_cell_def split: cellref.splits)

lemma tick_level:
  assumes "tick now s = Inr s'"
  shows "maze_set s' = maze_set s \<and> the_maze s' = the_maze s \<and> (synced s \<longrightarrow> synced s')"
proof (cases "running s")
  case False
  with assms show ?thesis by (simp add: tick_def)
next
  case True
  with assms obtain s1 s2 where
    s1: "drag_move (max 3 (of_int \<lfloor>cellSize (the_metrics s) * 0.32\<rfloor>)) now s = Inr s1"
    and s2: "drawAll (update_cell s1) = Inr s2"
    and s': "s' = (if \<not> won s2 \<and> player_cell s2 = Some (goal (the_maze s2))
                    then onGoal (s2\<lparr>won := True\<rparr>) else s2)"
    by (auto simp: tick_def split: sum.splits)
  have "maze_set s2 = maze_set s" "the_maze s2 = the_maze s" "synced s2"
    using drag_move_level [OF s1] drawAll_level [OF s2] update_cell_level(1,2) [of s1]
    by simp_all
  then show ?thesis by (simp add: s' onGoal_def synced_def)
qed

lemma jump_frame_level:
  assumes "jump_frame i s = Inr s'"
  shows "maze_set s' = maze_set s \<and> the_maze s' = the_maze s \<and> (synced s \<longrightarrow> synced s')"
proof (cases "i < length (jumps s)")
  case False
  with assms show ?thesis by (simp add: jump_frame_def)
next
  case True
  define y where "y = snd (jumps s ! i) - sin (real (fst (jumps s ! i) + 1) / 22 * pi) * (player_radius s * 0.8)"
  from assms True obtain s1 js where s1: "drawAll (s\<lparr>player_y := y\<rparr>) = Inr s1"
    and s': "s' = s1\<lparr>jumps := js\<rparr>"
    by (auto simp: jump_frame_def Let_def y_def split: sum.splits)
  from drawAll_level [OF s1] show ?thesis by (simp add: s')
qed

lemma startGame_level:
  assumes "startGame w h now s = Inr s'"
  shows "maze_set s'" "synced s'" "wf_maze (the_maze s')"
    "cols (the_maze s') = difficultyForAge (age s)" "rows (the_maze s') = difficultyForAge (age s)"
    "\<not> won s'" "running s'" "goal_count s' = goal_count s"
proof -
  from assms obtain s1 where s1: "fitCanvas w h s = Inr s1"
    by (auto simp: startGame_def split: sum.splits)
  have f: "age s1 = age s" "goal_count s1 = goal_count s"
    using s1 by (auto simp: fitCanvas_def drawAll_def split: if_splits sum.splits)
  define d where "d = difficultyForAge (age s1)"
  obtain m0 where m0: "new_maze d d (Some now) now = Inr m0" "cols m0 = d" "rows m0 = d" "wf_maze m0"
    using new_maze_level [of d d "Some now" now] difficultyForAge_pos [of "age s1"]
    unfolding d_def by blast
  define m where "m = m0\<lparr>start := (0, 0), goal := (cols m0 - 1, rows m0 - 1)\<rparr>"
  have m: "cols m = d" "rows m = d" "wf_maze m"
    using m0(2-4) by (simp_all add: m_def wf_maze_def)
  from assms s1 m0(1) obtain mt s2 where mt: "drawMaze m (canvasW s1) (canvasH s1) = Inr mt"
    and s2: "drawAll (s1\<lparr>maze_set := True, the_maze := m, the_metrics := mt,
                          player_cell := Some (start m),
                          player_x := fst (cellCenter mt (fst (start m)) (snd (start m))),
                          player_y := snd (cellCenter mt (fst (start m)) (snd (start m))),
                          player_radius := max 10 (of_int \<lfloor>cellSize mt * 0.24\<rfloor>),
                          won := False\<rparr>) = Inr s2"
    and s': "s' = s2\<lparr>running := True\<rparr>"
    by (auto simp: startGame_def d_def [symmetric] Let_def m_def [symmetric] split: sum.splits)
  note l = drawAll_level [OF s2] and g = drawAll_loop_fields(1,2) [OF s2]
  show "maze_set s'" "synced s'" "wf_maze (the_maze s')"
    "cols (the_maze s') = difficultyForAge (age s)" "rows (the_maze s') = difficultyForAge (age s)"
    "\<not> won s'" "running s'" "goal_count s' = goal_count s"
    using l g m f by (simp_all add: s' synced_def d_def)
qed

lemma loop_event_level:
  assumes "loop_event e s = Inr s'" "maze_set s" "synced s" "wf_maze (the_maze s)"
  shows "maze_set s' \<and> synced s' \<and> wf_maze (the_maze s')"
proof (cases e)
  case (Frame now)
  with assms tick_level [of now s s'] show ?thesis by simp
next
  case (JumpFrame i)
  with assms jump_frame_level [of i s s'] show ?thesis by simp
next
  case (Resize w h)
  with assms fitCanvas_level [of w h s s'] show ?thesis by simp
next
  case (StartGame w h now)
  with assms startGame_level(1-3) [of w h now s s'] show ?thesis by simp
qed (use assms in \<open>auto simp: onStart_def onMove_def onEnd_def synced_def split: if_splits\<close>)

lemma loop_run_level:
  assumes "loop_run es s = Inr s'" "maze_set s" "synced s" "wf_maze (the_maze s)"
  shows "maze_set s' \<and> synced s' \<and> wf_maze (the_maze s')"
  using assms
proof (induction es arbitrary: s)
  case Nil
  then show ?case by simp
next
  case (Cons e es)
  from Cons.prems(1) obtain s1 where s1: "loop_event e s = Inr s1" "loop_run es s1 = Inr s'"
    by (auto split: sum.splits)
  from loop_event_level [OF s1(1) Cons.prems(2-4)] Cons.IH [OF s1(2)] show ?case by simp
qed

lemma loop_level_states:
  assumes "loop_run (StartGame w h now # es) s0 = Inr s"
  shows "maze_set s \<and> synced s \<and> wf_maze (the_maze s)"
proof -
  from assms obtain s1 where s1: "startGame w h now s0 = Inr s1" "loop_run es s1 = Inr s"
    by (auto split: sum.splits)
  from loop_run_level [OF s1(2) startGame_level(1-3) [OF s1(1)]] show ?thesis .
qed

lemma tick_fires:
  assumes "tick now s = Inr s'" "running s" "\<not> won s"
  shows "won s' \<longleftrightarrow> player_cell s' = Some (goal (the_maze s'))"
proof -
  from assms obtain s1 s2 where
    s1: "drag_move (max 3 (of_int \<lfloor>cellSize (the_metrics s) * 0.32\<rfloor>)) now s = Inr s1"
    and s2: "drawAll (update_cell s1) = Inr s2"
    and s': "s' = (if \<not> won s2 \<and> player_cell s2 = Some (goal (the_maze s2))
                    then onGoal (s2\<lparr>won := True\<rparr>) else s2)"
    by (auto simp: tick_def split: sum.splits)
  have "won s2 = won s"
    using drag_move_fields [OF s1] drawAll_loop_fields(1) [OF s2] update_cell_fields [of s1]
    by simp
  with assms(3) show ?thesis by (simp add: s' onGoal_def)
qed

subsection \<open>The level of the examples\<close>

lemma new_maze_5x5:
  "new_maze 5 5 (Some 1762167600000) 1762167600000 = Inr \<lparr>cols = 5, rows = 5,
     grid = [\<lparr>cell_x = 0, cell_y = 0, passages = 2\<rparr>, \<lparr>cell_x = 1, cell_y = 0, passages = 12\<rparr>,
             \<lparr>cell_x = 2, cell_y = 0, passages = 2\<rparr>, \<lparr>cell_x = 3, cell_y = 0, passages = 10\<rparr>,
             \<lparr>cell_x = 4, cell_y = 0, passages = 12\<rparr>,
             \<lparr>cell_x = 0, cell_y = 1, passages = 6\<rparr>, \<lparr>cell_x = 1, cell_y = 1, passages = 9\<rparr>,
             \<lparr>cell_x = 2, cell_y = 1, passages = 6\<rparr>, \<lparr>cell_x = 3, cell_y = 1, passages = 10\<rparr>,
             \<lparr>cell_x = 4, cell_y = 1, passages = 13\<rparr>,
             \<lparr>cell_x = 0, cell_y = 2, passages = 3\<rparr>, \<lparr>cell_x = 1, cell_y = 2, passages = 10\<rparr>,
             \<lparr>cell_x = 2, cell_y = 2, passages = 9\<rparr>, \<lparr>cell_x = 3, cell_y = 2, passages = 6\<rparr>,
             \<lparr>cell_x = 4, cell_y = 2, passages = 9\<rparr>,
             \<lparr>cell_x = 0, cell_y = 3, passages = 4\<rparr>, \<lparr>cell_x = 1, cell_y = 3, passages = 6\<rparr>,
             \<lparr>cell_x = 2, cell_y = 3, passages = 12\<rparr>, \<lparr>cell_x = 3, cell_y = 3, passages = 5\<rparr>,
             \<lparr>cell_x = 4, cell_y = 3, passages = 4\<rparr>,
             \<lparr>cell_x = 0, cell_y = 4, passages = 3\<rparr>, \<lparr>cell_x = 1, cell_y = 4, passages = 9\<rparr>,
             \<lparr>cell_x = 2, cell_y = 4, passages = 3\<rparr>, \<lparr>cell_x = 3, cell_y = 4, passages = 11\<rparr>,
             \<lparr>cell_x = 4, cell_y = 4, passages = 9\<rparr>],
     start = (0, 0), goal = (4, 4)\<rparr>"
  by (simp add: new_maze_def Maze_def upto.simps generate_def gen_init_def gen_loop.simps
      gen_step_def Let_def neighbors_def idx_def grid_at_def open_at_def Cell_open_def new_Cell_def
      dir_bit_def mulberry32_def pick_def cong: let_weak_cong filter_weak_cong)

lemmas level_eval = page_load_def no_maze_def level_metrics_def level_start_def
  way_to_goal_def jump_frames_def cellCenter_def difficultyForAge_def new_maze_5x5
  onStart_def withinPlayer_def onEnd_def onGoal_def jump_frame_def fitCanvas_def
  drawAll_def drawMaze_def canMove_def grid_at_def idx_def isOpen_def dir_bit_def Let_def

lemmas hop_eval = hop_page_load_def game.extend_def drag_hop_def to_goal_def out_and_back_def
  startGame_hop_def onMove_hop_def tryStepToward_def drag_dir_def canMove_player_def
  begin_hop_def animate_def anim_step_def

lemmas loop_eval = loop_page_load_def game.extend_def glide_def drag_to_goal_def
  drag_out_and_back_def startGame_def onMove_def tick_def drag_move_def update_cell_def
  attemptMove_def canTraverse_def cellFromPoint_def maybeHurt_def hurt_def


subsection \<open>The goal event in main.js\<close>

text \<open>
  In main.js, from a call of \<open>startGame\<close> on and through any events that are not another
  \<open>startGame\<close>, \<open>onGoal\<close> has been called once if \<open>won\<close> is set and not at all otherwise:
  \<open>startGame\<close> clears \<open>won\<close>, \<open>tick\<close> calls \<open>onGoal\<close> only where it sets \<open>won\<close>, and nothing
  else clears it (\<open>loop_run_goal\<close>). While \<open>won\<close> is clear, a tick sets it exactly when the
  agent's cell is the goal (\<open>tick_fires\<close>). In the example the agent reaches the goal,
  leaves it and enters it again: one \<open>onGoal\<close>, five coins.
\<close>

theorem loop_goal_once:
  assumes "loop_run (StartGame w h now # es) s0 = Inr s'" and "\<forall>e \<in> set es. \<not> is_StartGame e"
  shows "goal_count s' = goal_count s0 + (if won s' then 1 else 0)"
proof -
  from assms(1) obtain s where s: "startGame w h now s0 = Inr s" "loop_run es s = Inr s'"
    by (auto split: sum.splits)
  from startGame_level(6,8) [OF s(1)] loop_run_goal [OF s(2) assms(2)] show ?thesis by simp
qed

theorem loop_goal_once_witness:
  "map_sum id (\<lambda>s. (goal_count s, coins s, player_cell s, won s))
     (loop_run (level_start # drag_to_goal) loop_page_load) = Inr (1, 5, Some (4, 4), True)
   \<and> map_sum id (\<lambda>s. (goal_count s, coins s, player_cell s, won s))
       (loop_run (level_start # drag_to_goal @ glide (3, 4) 1952) loop_page_load)
       = Inr (1, 5, Some (3, 4), True)
   \<and> map_sum id (\<lambda>s. (goal_count s, coins s, player_cell s, won s))
       (loop_run (level_start # drag_to_goal @ drag_out_and_back) loop_page_load)
       = Inr (1, 5, Some (4, 4), True)
   \<and> filter is_StartGame (drag_to_goal @ drag_out_and_back) = []"
  using loop_goal_once [of 532 532 1762167600000 "drag_to_goal @ drag_out_and_back" loop_page_load
      "projr (loop_run (level_start # drag_to_goal @ drag_out_and_back) loop_page_load)"]
  by (simp add: level_eval loop_eval)


subsection \<open>The goal event in part_000\<close>

text \<open>
  C3. part_000 has no flag \<open>won\<close>: \<open>step\<close> tests the goal whenever a hop is complete. In
  the level above, entered through \<open>startGame\<close> from the loaded page, the agent arrives at
  the goal \<open>(4, 4)\<close> and \<open>onGoal\<close> fires (five coins); it hops to \<open>(3, 4)\<close> and back, with
  no \<open>startGame\<close> in between, and \<open>onGoal\<close> fires a second time (ten coins).
\<close>

theorem hop_goal_fires_twice:
  "map_sum id (\<lambda>s. (goal_count s, coins s, player_cell s))
     (hop_run (level_start # to_goal) hop_page_load) = Inr (1, 5, Some (4, 4))
   \<and> map_sum id (\<lambda>s. (goal_count s, coins s, player_cell s))
       (hop_run (level_start # to_goal @ jump_frames @ drag_hop (4, 4) (3, 4) 2564) hop_page_load)
       = Inr (1, 5, Some (3, 4))
   \<and> map_sum id (\<lambda>s. (goal_count s, coins s, player_cell s))
       (hop_run (level_start # to_goal @ jump_frames @ out_and_back) hop_page_load)
       = Inr (2, 10, Some (4, 4))
   \<and> filter is_StartGame (to_goal @ jump_frames @ out_and_back) = []"
  by (simp add: level_eval hop_eval)

end
